theory Spec2Isabelle
  imports Complex_Main "HOL-Library.AList"
begin

section \<open>JavaScript numbers\<close>

text \<open>
  The warp calculator computes on JavaScript numbers. They are modelled as the real
  numbers extended by the three special values of the language, with the arithmetic of
  the special values written out; finite results are exact (rounding is not modelled,
  and there is no signed zero).
\<close>

datatype jsnum = Num real | Infinity | NegInfinity | NaN

instantiation jsnum :: "{uminus, plus, minus, times, inverse, abs, ord}"
begin

fun uminus_jsnum :: "jsnum \<Rightarrow> jsnum" where
  "- Num a = Num (- a)"
| "- Infinity = NegInfinity"
| "- NegInfinity = Infinity"
| "- NaN = NaN"

fun plus_jsnum :: "jsnum \<Rightarrow> jsnum \<Rightarrow> jsnum" where
  "Num a + Num b = Num (a + b)"
| "NaN + _ = NaN"
| "_ + NaN = NaN"
| "Infinity + NegInfinity = NaN"
| "NegInfinity + Infinity = NaN"
| "Infinity + _ = Infinity"
| "_ + Infinity = Infinity"
| "NegInfinity + _ = NegInfinity"
| "_ + NegInfinity = NegInfinity"

definition minus_jsnum :: "jsnum \<Rightarrow> jsnum \<Rightarrow> jsnum" where
  "minus_jsnum a b = a + (- b)"

fun times_jsnum :: "jsnum \<Rightarrow> jsnum \<Rightarrow> jsnum" where
  "Num a * Num b = Num (a * b)"
| "NaN * _ = NaN"
| "_ * NaN = NaN"
| "Num a * Infinity = (if 0 < a then Infinity else if a < 0 then NegInfinity else NaN)"
| "Num a * NegInfinity = (if 0 < a then NegInfinity else if a < 0 then Infinity else NaN)"
| "Infinity * Num b = (if 0 < b then Infinity else if b < 0 then NegInfinity else NaN)"
| "NegInfinity * Num b = (if 0 < b then NegInfinity else if b < 0 then Infinity else NaN)"
| "Infinity * Infinity = Infinity"
| "Infinity * NegInfinity = NegInfinity"
| "NegInfinity * Infinity = NegInfinity"
| "NegInfinity * NegInfinity = Infinity"

fun divide_jsnum :: "jsnum \<Rightarrow> jsnum \<Rightarrow> jsnum" where
  "divide_jsnum (Num a) (Num b) =
     (if b \<noteq> 0 then Num (a / b)
      else if 0 < a then Infinity else if a < 0 then NegInfinity else NaN)"
| "divide_jsnum NaN _ = NaN"
| "divide_jsnum _ NaN = NaN"
| "divide_jsnum (Num a) Infinity = Num 0"
| "divide_jsnum (Num a) NegInfinity = Num 0"
| "divide_jsnum Infinity (Num b) = (if 0 \<le> b then Infinity else NegInfinity)"
| "divide_jsnum NegInfinity (Num b) = (if 0 \<le> b then NegInfinity else Infinity)"
| "divide_jsnum Infinity _ = NaN"
| "divide_jsnum NegInfinity _ = NaN"

definition inverse_jsnum :: "jsnum \<Rightarrow> jsnum" where
  "inverse_jsnum a = divide (Num 1) a"

fun abs_jsnum :: "jsnum \<Rightarrow> jsnum" where
  "\<bar>Num a\<bar> = Num \<bar>a\<bar>"
| "\<bar>Infinity\<bar> = Infinity"
| "\<bar>NegInfinity\<bar> = Infinity"
| "\<bar>NaN\<bar> = NaN"

fun less_jsnum :: "jsnum \<Rightarrow> jsnum \<Rightarrow> bool" where
  "Num a < Num b \<longleftrightarrow> a < b"
| "NaN < _ \<longleftrightarrow> False"
| "_ < NaN \<longleftrightarrow> False"
| "Num a < Infinity \<longleftrightarrow> True"
| "NegInfinity < Num b \<longleftrightarrow> True"
| "NegInfinity < Infinity \<longleftrightarrow> True"
| "(_::jsnum) < _ \<longleftrightarrow> False"

fun less_eq_jsnum :: "jsnum \<Rightarrow> jsnum \<Rightarrow> bool" where
  "Num a \<le> Num b \<longleftrightarrow> a \<le> b"
| "NaN \<le> _ \<longleftrightarrow> False"
| "_ \<le> NaN \<longleftrightarrow> False"
| "_ \<le> Infinity \<longleftrightarrow> True"
| "NegInfinity \<le> _ \<longleftrightarrow> True"
| "(_::jsnum) \<le> _ \<longleftrightarrow> False"

instance ..

end

text \<open>\<open>isFinite\<close>, \<open>Math.min\<close>, \<open>Math.max\<close>: a NaN argument gives NaN.\<close>

fun isFinite :: "jsnum \<Rightarrow> bool" where
  "isFinite (Num a) = True"
| "isFinite _ = False"

definition Math_max :: "jsnum \<Rightarrow> jsnum \<Rightarrow> jsnum" where
  "Math_max a b = (if a = NaN \<or> b = NaN then NaN else if a \<le> b then b else a)"

definition Math_min :: "jsnum \<Rightarrow> jsnum \<Rightarrow> jsnum" where
  "Math_min a b = (if a = NaN \<or> b = NaN then NaN else if a \<le> b then a else b)"

text \<open>
  \<open>Math.pow\<close>: the calculator raises only finite bases that are at least 1 (the guards
  of \<open>warpToSpeedMultiplier\<close> and \<open>speedMultiplierToWarp\<close> see to that) to the finite
  exponents 10/3 and 3/10. For a positive finite base the power is the real power; the
  other argument combinations are not reached by the program and are not modelled
  (the model answers NaN there).
\<close>

fun Math_pow :: "jsnum \<Rightarrow> jsnum \<Rightarrow> jsnum" where
  "Math_pow (Num x) (Num y) = (if 0 < x then Num (x powr y) else NaN)"
| "Math_pow _ _ = NaN"


section \<open>Warp calculator\<close>

definition SPEED_OF_LIGHT_KM_S :: jsnum where
  "SPEED_OF_LIGHT_KM_S = Num 299792.458"

definition SECONDS_PER_DAY :: jsnum where
  "SECONDS_PER_DAY = Num 86400"

definition KM_PER_LIGHT_YEAR :: jsnum where
  "KM_PER_LIGHT_YEAR = Num 9461000000000"

definition LIGHT_YEARS_PER_DAY_AT_C :: jsnum where
  "LIGHT_YEARS_PER_DAY_AT_C = (SPEED_OF_LIGHT_KM_S * SECONDS_PER_DAY) / KM_PER_LIGHT_YEAR"

text \<open>The lookup table for warp 9 and above: rows \<open>[warpFactor, speedInC]\<close>.\<close>

definition TNG_SPEED_TABLE :: "(jsnum \<times> jsnum) list" where
  "TNG_SPEED_TABLE =
    [(Num 9.0, Num 1516.38),
     (Num 9.1, Num 1575.51),
     (Num 9.2, Num 1640.63),
     (Num 9.3, Num 1713.31),
     (Num 9.4, Num 1796.0),
     (Num 9.5, Num 1894.85),
     (Num 9.6, Num 2017.93),
     (Num 9.7, Num 2185.45),
     (Num 9.8, Num 2450.01),
     (Num 9.9, Num 3029.26),
     (Num 9.91, Num 3136.69),
     (Num 9.92, Num 3264.3),
     (Num 9.93, Num 3419.44),
     (Num 9.94, Num 3613.71),
     (Num 9.95, Num 3866.92),
     (Num 9.96, Num 4216.18),
     (Num 9.97, Num 4741.59),
     (Num 9.98, Num 5660.62),
     (Num 9.99, Num 7912.0)]"

text \<open>
  The loop of \<open>findSpeedAbove9\<close> walks the adjacent pairs of rows \<open>i\<close>, \<open>i + 1\<close> from
  the front and returns the interpolated speed at the first pair that brackets the warp
  factor; \<open>None\<close> is the loop running to its end without returning.
\<close>

definition interpolate :: "jsnum \<Rightarrow> jsnum \<times> jsnum \<Rightarrow> jsnum \<times> jsnum \<Rightarrow> jsnum" where
  "interpolate warpFactor r1 r2 =
     (case r1 of (w1, s1) \<Rightarrow> case r2 of (w2, s2) \<Rightarrow>
        (let t = (warpFactor - w1) / (w2 - w1) in s1 + t * (s2 - s1)))"

fun findBracket :: "jsnum \<Rightarrow> (jsnum \<times> jsnum) list \<Rightarrow> jsnum option" where
  "findBracket warpFactor (r1 # r2 # rest) =
     (if warpFactor \<ge> fst r1 \<and> warpFactor \<le> fst r2
      then Some (interpolate warpFactor r1 r2)
      else findBracket warpFactor (r2 # rest))"
| "findBracket warpFactor _ = None"

definition findSpeedAbove9 :: "jsnum \<Rightarrow> jsnum" where
  "findSpeedAbove9 warpFactor =
     (case findBracket warpFactor TNG_SPEED_TABLE of
        Some s \<Rightarrow> s
      | None \<Rightarrow>
          interpolate warpFactor
            (TNG_SPEED_TABLE ! (length TNG_SPEED_TABLE - 2))
            (TNG_SPEED_TABLE ! (length TNG_SPEED_TABLE - 1)))"

definition warpToSpeedMultiplier :: "jsnum \<Rightarrow> jsnum" where
  "warpToSpeedMultiplier warpFactor =
     (if warpFactor < Num 1 then warpFactor
      else if warpFactor \<ge> Num 10 then Infinity
      else if warpFactor \<le> Num 9 then Math_pow warpFactor (Num 10 / Num 3)
      else findSpeedAbove9 warpFactor)"

text \<open>
  The Newton-Raphson loop of \<open>speedMultiplierToWarp\<close>. The first argument is the number
  of iterations the \<open>for\<close> loop has left (\<open>maxIterations - i\<close>); the result is what the
  function returns, either from inside the loop (convergence) or after it (the cap was
  reached, or \<open>break\<close> on a vanishing derivative).
\<close>

definition clampResult :: "jsnum \<Rightarrow> jsnum" where
  "clampResult w = Math_min (Math_max w (Num 1)) (Num 9.99)"

fun newtonLoop :: "nat \<Rightarrow> jsnum \<Rightarrow> jsnum \<Rightarrow> jsnum" where
  "newtonLoop 0 target w = clampResult w"
| "newtonLoop (Suc n) target w =
     (let fw = warpToSpeedMultiplier w - target in
      if \<bar>fw\<bar> < Num (1 / 10 ^ 9) then clampResult w
      else
        let h = Num (1 / 10 ^ 8);
            fwh = warpToSpeedMultiplier (w + h) - target;
            derivative = (fwh - fw) / h
        in if \<bar>derivative\<bar> < Num (1 / 10 ^ 15) then clampResult w
           else
             let w1 = w - fw / derivative;
                 w2 = (if w1 < Num 1 then Num 1 else w1);
                 w3 = (if w2 > Num 9.999 then Num 9.999 else w2)
             in newtonLoop n target w3)"

text \<open>\<open>None\<close> is the source's \<open>null\<close>.\<close>

definition speedMultiplierToWarp :: "jsnum \<Rightarrow> jsnum option" where
  "speedMultiplierToWarp speedMultiplier =
     (if speedMultiplier \<le> Num 0 then None
      else if speedMultiplier < Num 1 then Some speedMultiplier
      else if \<not> isFinite speedMultiplier then Some (Num 10)
      else
        let target = speedMultiplier;
            w0 = Math_pow target (Num 3 / Num 10);
            w = (if w0 > Num 9.99 then Num 9.5 else w0)
        in Some (newtonLoop 50 target w))"

definition calculateTime :: "jsnum \<Rightarrow> jsnum \<Rightarrow> jsnum" where
  "calculateTime warpFactor distanceLY =
     (let speedC = warpToSpeedMultiplier warpFactor;
          lyPerDay = speedC * LIGHT_YEARS_PER_DAY_AT_C
      in if lyPerDay \<le> Num 0 then Infinity else distanceLY / lyPerDay)"

definition calculateWarpFactor :: "jsnum \<Rightarrow> jsnum \<Rightarrow> jsnum option" where
  "calculateWarpFactor distanceLY timeDays =
     (if timeDays \<le> Num 0 then None
      else
        let lyPerDay = distanceLY / timeDays;
            speedC = lyPerDay / LIGHT_YEARS_PER_DAY_AT_C
        in speedMultiplierToWarp speedC)"


section \<open>Journal backlinks\<close>

text \<open>
  The host's documents are modelled as a store from UUIDs to documents; a document handle
  of the source (\<open>entity\<close>, \<open>referenced\<close>, \<open>target\<close>) is its UUID. Of a document the model
  keeps its name, the name of its parent, the rich text that \<open>_getContent\<close> collects from
  the document's own data (for a journal page \<open>entity.text.content\<close>; no flag is read for
  it), and the two flags of this module: \<open>references\<close> and \<open>referencedBy\<close>. A flag that
  is not set is \<open>None\<close>. The \<open>referencedBy\<close> object is an association list from the kind
  of the source to the UUIDs of the sources, in insertion order.
\<close>

record document =
  doc_name :: string
  doc_parentName :: "string option"
  doc_content :: string
  flag_references :: "string list option"
  flag_referencedBy :: "(string \<times> string list) list option"

text \<open>
  The world: the store, the host collections that \<open>_getAllDocuments\<close> walks (the pages of
  \<open>game.journal\<close>, \<open>game.actors\<close>, \<open>game.items\<close>, \<open>game.tables\<close>, as lists of UUIDs in
  iteration order), the two settings read by the update, and the console. Of the lines
  the module prints, the console of the model holds the two diagnostics of \<open>update\<close>
  for a reference that does not resolve (the other lines show names, counts and
  previews of the content, and nothing stated below reads them).
\<close>

record world =
  docs :: "string \<rightharpoonup> document"
  journalPages :: "string list"
  actors :: "string list"
  items :: "string list"
  tables :: "string list"
  rebuildOnSave :: bool
  debugSetting :: bool
  console :: "string list"

definition MODULE_ID :: string where
  "MODULE_ID = ''sta-utils''"

definition log_text :: "string \<Rightarrow> world \<Rightarrow> world" where
  "log_text text w = w\<lparr>console := console w @ [MODULE_ID @ '' | journal-backlinks | '' @ text]\<rparr>"

definition debug :: "string \<Rightarrow> world \<Rightarrow> world" where
  "debug text w = (if debugSetting w then log_text (''DEBUG | '' @ text) w else w)"

text \<open>
  \<open>fromUuidSync\<close> is the host's lookup; in the model it is the store, and the \<open>null\<close>
  it answers for a UUID that does not resolve is \<open>None\<close>.
\<close>

definition fromUuidSync :: "world \<Rightarrow> string \<Rightarrow> document option" where
  "fromUuidSync w uuid = docs w uuid"

text \<open>
  \<open>setFlag\<close> and \<open>unsetFlag\<close> of the host, for the two flags. The source calls them on
  live documents only; on a UUID that is not in the store the model changes nothing.
  For \<open>referencedBy\<close> the host merges the object it is given into the stored one, and a
  key \<open>-=k\<close> with value \<open>null\<close> deletes \<open>k\<close>: since the source passes the stored object
  with one key changed or deleted, the stored object becomes the one passed.
\<close>

definition setFlag_referencedBy :: "world \<Rightarrow> string \<Rightarrow> (string \<times> string list) list \<Rightarrow> world" where
  "setFlag_referencedBy w uuid links =
     (case docs w uuid of
        None \<Rightarrow> w
      | Some d \<Rightarrow> w\<lparr>docs := (docs w)(uuid \<mapsto> d\<lparr>flag_referencedBy := Some links\<rparr>)\<rparr>)"

definition setFlag_references :: "world \<Rightarrow> string \<Rightarrow> string list \<Rightarrow> world" where
  "setFlag_references w uuid refs =
     (case docs w uuid of
        None \<Rightarrow> w
      | Some d \<Rightarrow> w\<lparr>docs := (docs w)(uuid \<mapsto> d\<lparr>flag_references := Some refs\<rparr>)\<rparr>)"

definition unsetFlag_referencedBy :: "world \<Rightarrow> string \<Rightarrow> world" where
  "unsetFlag_referencedBy w uuid =
     (case docs w uuid of
        None \<Rightarrow> w
      | Some d \<Rightarrow> w\<lparr>docs := (docs w)(uuid \<mapsto> d\<lparr>flag_referencedBy := None\<rparr>)\<rparr>)"

definition unsetFlag_references :: "world \<Rightarrow> string \<Rightarrow> world" where
  "unsetFlag_references w uuid =
     (case docs w uuid of
        None \<Rightarrow> w
      | Some d \<Rightarrow> w\<lparr>docs := (docs w)(uuid \<mapsto> d\<lparr>flag_references := None\<rparr>)\<rparr>)"

subsection \<open>Reference extraction\<close>

text \<open>
  The pattern \<open>/@(\w+)\[([^\]]+)\]/g\<close>. A match starts at an \<open>@\<close>, takes the longest run
  of word characters (at least one), an opening bracket, the longest run of characters
  other than the closing bracket (at least one), and the closing bracket. Neither run
  can be shortened to make a match succeed, so the scan needs no backtracking; after a
  match it goes on behind the match, after a failure at the next character.
\<close>

definition isWordChar :: "char \<Rightarrow> bool" where
  "isWordChar c \<longleftrightarrow>
     c \<in> set ''abcdefghijklmnopqrstuvwxyzABCDEFGHIJKLMNOPQRSTUVWXYZ0123456789_''"

function matchAll :: "string \<Rightarrow> (string \<times> string) list" where
  "matchAll [] = []"
| "matchAll (c # cs) =
     (if c = CHR ''@'' then
        (let linkType = takeWhile isWordChar cs;
             r1 = dropWhile isWordChar cs
         in if linkType \<noteq> [] \<and> r1 \<noteq> [] \<and> hd r1 = CHR ''['' then
              (let target = takeWhile (\<lambda>x. x \<noteq> CHR '']'') (tl r1);
                   r2 = dropWhile (\<lambda>x. x \<noteq> CHR '']'') (tl r1)
               in if target \<noteq> [] \<and> r2 \<noteq> [] then (linkType, target) # matchAll (tl r2)
                  else matchAll cs)
            else matchAll cs)
      else matchAll cs)"
  by pat_completeness auto
termination
proof (relation "measure length")
  show "wf (measure length)" by simp
next
  fix c :: char and cs linkType r1 target r2 :: string
  assume "r1 = dropWhile isWordChar cs"
    and "r2 = dropWhile (\<lambda>x. x \<noteq> CHR '']'') (tl r1)"
  then have "length (tl r2) \<le> length cs"
    using length_dropWhile_le [of isWordChar cs]
      length_dropWhile_le [of "\<lambda>x. x \<noteq> CHR '']''" "tl r1"]
    by simp
  then show "(tl r2, c # cs) \<in> measure length" by simp
qed simp_all

definition references :: "string \<Rightarrow> string list" where
  "references text =
     map (\<lambda>(linkType, target). if linkType = ''UUID'' then target else linkType @ ''.'' @ target)
       (matchAll text)"

subsection \<open>The incremental update\<close>

text \<open>\<open>String.prototype.split\<close> on a one-character separator, and \<open>Array.prototype.join\<close>.\<close>

fun split :: "char \<Rightarrow> string \<Rightarrow> string list" where
  "split sep [] = [[]]"
| "split sep (c # cs) =
     (if c = sep then [] # split sep cs
      else (case split sep cs of [] \<Rightarrow> [[c]] | x # xs \<Rightarrow> (c # x) # xs))"

fun join :: "string \<Rightarrow> string list \<Rightarrow> string" where
  "join sep [] = []"
| "join sep [x] = x"
| "join sep (x # y # ys) = x @ sep @ join sep (y # ys)"

text \<open>A relative reference (one that starts with a dot) is completed from the entity's UUID.\<close>

definition fullReference :: "string \<Rightarrow> string \<Rightarrow> string \<Rightarrow> string" where
  "fullReference entity entityType reference =
     (if reference \<noteq> [] \<and> hd reference = CHR ''.''
      then join ''.'' (take 2 (split CHR ''.'' entity)) @ ''.'' @ entityType @ reference
      else reference)"

definition linksOfType :: "(string \<times> string list) list \<Rightarrow> string \<Rightarrow> string list" where
  "linksOfType links entityType = (case map_of links entityType of None \<Rightarrow> [] | Some l \<Rightarrow> l)"

text \<open>
  The first loop of \<open>update\<close> ("add new references"), over the extracted references,
  with the list \<open>updated\<close> and the world as the loop state.
\<close>

fun addReferences ::
  "string \<Rightarrow> string \<Rightarrow> string list \<Rightarrow> string list \<Rightarrow> string list \<times> world \<Rightarrow> string list \<times> world"
where
  "addReferences entity entityType existing [] (updated, w) = (updated, w)"
| "addReferences entity entityType existing (r # rest) (updated, w) =
     (let reference = fullReference entity entityType r in
      if reference \<in> set updated
      then addReferences entity entityType existing rest (updated, w)
      else
        let updated' = updated @ [reference] in
        if reference \<in> set existing
        then addReferences entity entityType existing rest (updated', w)
        else
          (case fromUuidSync w reference of
             None \<Rightarrow>
               addReferences entity entityType existing rest
                 (updated', debug (''no referenced entity '' @ reference @ ''; skipping'') w)
           | Some referenced \<Rightarrow>
               let links = (case flag_referencedBy referenced of None \<Rightarrow> [] | Some l \<Rightarrow> l);
                   ofType = linksOfType links entityType
               in if entity \<in> set ofType
                  then addReferences entity entityType existing rest (updated', w)
                  else addReferences entity entityType existing rest
                         (updated',
                          setFlag_referencedBy w reference
                            (AList.update entityType (ofType @ [entity]) links))))"

text \<open>The second loop ("remove outdated references"), over the outdated references.\<close>

fun removeOutdated :: "string \<Rightarrow> string \<Rightarrow> string list \<Rightarrow> world \<Rightarrow> world" where
  "removeOutdated entity entityType [] w = w"
| "removeOutdated entity entityType (outdated # rest) w =
     (case fromUuidSync w outdated of
        None \<Rightarrow>
          removeOutdated entity entityType rest
            (debug (''outdated entity '' @ outdated @ '' does not exist'') w)
      | Some target \<Rightarrow>
          (case flag_referencedBy target of
             None \<Rightarrow> removeOutdated entity entityType rest w
           | Some links \<Rightarrow>
               let ofType = linksOfType links entityType in
               if entity \<in> set ofType
               then
                 let ofType' = remove1 entity ofType;
                     links' = (if ofType' \<noteq> [] then AList.update entityType ofType' links
                               else AList.delete entityType links)
                 in removeOutdated entity entityType rest
                      (setFlag_referencedBy w outdated links')
               else removeOutdated entity entityType rest w))"

definition existingReferences :: "world \<Rightarrow> string \<Rightarrow> string list" where
  "existingReferences w entity =
     (case docs w entity of
        None \<Rightarrow> []
      | Some d \<Rightarrow> (case flag_references d of None \<Rightarrow> [] | Some l \<Rightarrow> l))"

definition update :: "world \<Rightarrow> string \<Rightarrow> string \<Rightarrow> string \<Rightarrow> bool \<Rightarrow> world" where
  "update w entity entityType content force =
     (if \<not> force \<and> \<not> rebuildOnSave w then w
      else
        let existing = existingReferences w entity;
            (updated, w1) = addReferences entity entityType existing (references content) ([], w);
            w2 = removeOutdated entity entityType (filter (\<lambda>v. v \<notin> set updated) existing) w1
        in setFlag_references w2 entity updated)"

subsection \<open>The full rebuild\<close>

definition getAllDocuments :: "world \<Rightarrow> (string \<times> string) list" where
  "getAllDocuments w =
     map (\<lambda>page. (page, ''JournalEntryPage'')) (journalPages w)
     @ map (\<lambda>actor. (actor, ''Actor'')) (actors w)
     @ map (\<lambda>item. (item, ''Item'')) (items w)
     @ map (\<lambda>table. (table, ''RollTable'')) (tables w)"

definition getContent :: "world \<Rightarrow> string \<Rightarrow> string" where
  "getContent w entity = (case docs w entity of None \<Rightarrow> [] | Some d \<Rightarrow> doc_content d)"

text \<open>Phase 1 of \<open>sync\<close>: wipe every \<open>referencedBy\<close> flag that is set.\<close>

fun wipeReferencedBy :: "(string \<times> string) list \<Rightarrow> world \<Rightarrow> world" where
  "wipeReferencedBy [] w = w"
| "wipeReferencedBy ((entity, entityType) # rest) w =
     (case docs w entity of
        None \<Rightarrow> wipeReferencedBy rest w
      | Some d \<Rightarrow>
          if flag_referencedBy d \<noteq> None
          then wipeReferencedBy rest (unsetFlag_referencedBy w entity)
          else wipeReferencedBy rest w)"

text \<open>Phase 2: per document, wipe \<open>references\<close> and run the update on its content.\<close>

fun rebuildReferences :: "(string \<times> string) list \<Rightarrow> world \<Rightarrow> world" where
  "rebuildReferences [] w = w"
| "rebuildReferences ((entity, entityType) # rest) w =
     (let w1 = (case docs w entity of
                  None \<Rightarrow> w
                | Some d \<Rightarrow> if flag_references d \<noteq> None then unsetFlag_references w entity else w);
          content = getContent w1 entity
      in if content \<noteq> []
         then rebuildReferences rest (update w1 entity entityType content True)
         else rebuildReferences rest w1)"

definition sync :: "world \<Rightarrow> world" where
  "sync w =
     (let allDocuments = getAllDocuments w
      in rebuildReferences allDocuments (wipeReferencedBy allDocuments w))"

subsection \<open>Rendering\<close>

text \<open>
  \<open>includeLinksFromRefs\<close> builds one list item per incoming reference. The permission
  predicate \<open>testUserPermission\<close> belongs to the host and may throw; it is a parameter
  of the model, from the UUID of the referencing document (for the current user and the
  configured minimum permission) to its answer or the exception. The result of the model
  is the list of items built, or the exception that leaves the routine.
\<close>

datatype error = Thrown string

record link_item =
  item_type :: string
  item_uuid :: string
  item_label :: string
  item_icon :: "string option"

definition iconOf :: "string \<Rightarrow> string option" where
  "iconOf type =
     (if type = ''JournalEntryPage'' then Some ''fa-file-lines''
      else if type = ''Actor'' then Some ''fa-user''
      else if type = ''Item'' then Some ''fa-suitcase''
      else if type = ''RollTable'' then Some ''fa-th-list''
      else None)"

definition displayName :: "string \<Rightarrow> document \<Rightarrow> string" where
  "displayName type entity =
     (case doc_parentName entity of
        Some parent \<Rightarrow>
          if type = ''JournalEntryPage'' \<and> parent \<noteq> []
          then parent @ '': '' @ doc_name entity
          else doc_name entity
      | None \<Rightarrow> doc_name entity)"

fun includeValues ::
  "world \<Rightarrow> (string \<Rightarrow> error + bool) \<Rightarrow> string \<Rightarrow> string list \<Rightarrow> link_item list
    \<Rightarrow> error + link_item list"
where
  "includeValues w testUserPermission type [] linksList = Inr linksList"
| "includeValues w testUserPermission type (v # rest) linksList =
     (if v = [] then includeValues w testUserPermission type rest linksList
      else
        (case fromUuidSync w v of
           None \<Rightarrow> includeValues w testUserPermission type rest linksList
         | Some entity \<Rightarrow>
             (case testUserPermission v of
                Inl e \<Rightarrow> Inl e
              | Inr allowed \<Rightarrow>
                  if \<not> allowed then includeValues w testUserPermission type rest linksList
                  else includeValues w testUserPermission type rest
                         (linksList @
                           [\<lparr>item_type = type, item_uuid = v,
                             item_label = displayName type entity,
                             item_icon = iconOf type\<rparr>]))))"

fun includeEntries ::
  "world \<Rightarrow> (string \<Rightarrow> error + bool) \<Rightarrow> (string \<times> string list) list \<Rightarrow> link_item list
    \<Rightarrow> error + link_item list"
where
  "includeEntries w testUserPermission [] linksList = Inr linksList"
| "includeEntries w testUserPermission ((type, vs) # rest) linksList =
     (case includeValues w testUserPermission type vs linksList of
        Inl e \<Rightarrow> Inl e
      | Inr linksList' \<Rightarrow> includeEntries w testUserPermission rest linksList')"

definition includeLinksFromRefs ::
  "world \<Rightarrow> (string \<Rightarrow> error + bool) \<Rightarrow> (string \<times> string list) list \<Rightarrow> error + link_item list"
where
  "includeLinksFromRefs w testUserPermission links = includeEntries w testUserPermission links []"


section \<open>Notions for the statements about the backlinks\<close>

text \<open>
  Views of the store: what of a document no operation of the module writes, its
  \<open>referencedBy\<close> flag, its \<open>references\<close> flag (each \<open>None\<close> for a UUID that is not in
  the store), and what of the world is not the store or the console.
\<close>

definition staticOf :: "world \<Rightarrow> string \<Rightarrow> (string \<times> string option \<times> string) option" where
  "staticOf w u = map_option (\<lambda>d. (doc_name d, doc_parentName d, doc_content d)) (docs w u)"

definition byOf :: "world \<Rightarrow> string \<Rightarrow> (string \<times> string list) list option option" where
  "byOf w u = map_option flag_referencedBy (docs w u)"

definition refsOf :: "world \<Rightarrow> string \<Rightarrow> string list option option" where
  "refsOf w u = map_option flag_references (docs w u)"

definition settingsOf ::
  "world \<Rightarrow> string list \<times> string list \<times> string list \<times> string list \<times> bool \<times> bool" where
  "settingsOf w = (journalPages w, actors w, items w, tables w, rebuildOnSave w, debugSetting w)"

text \<open>
  \<open>bucket w u t\<close> is the list that \<open>update\<close> reads as \<open>links[entityType] || []\<close> on the
  document \<open>u\<close>: the sources of kind \<open>t\<close> recorded in the \<open>referencedBy\<close> flag of \<open>u\<close>.
  \<open>bucketEntry w u t\<close> is the entry itself, \<open>None\<close> when the flag has no key \<open>t\<close>.
\<close>

definition bucket :: "world \<Rightarrow> string \<Rightarrow> string \<Rightarrow> string list" where
  "bucket w u t =
     (case docs w u of
        None \<Rightarrow> []
      | Some d \<Rightarrow> linksOfType (case flag_referencedBy d of None \<Rightarrow> [] | Some l \<Rightarrow> l) t)"

definition bucketEntry :: "world \<Rightarrow> string \<Rightarrow> string \<Rightarrow> string list option" where
  "bucketEntry w u t =
     (case docs w u of
        None \<Rightarrow> None
      | Some d \<Rightarrow> (case flag_referencedBy d of None \<Rightarrow> None | Some l \<Rightarrow> map_of l t))"

text \<open>
  The bodies of the two loops of \<open>update\<close> and of the second loop of \<open>sync\<close>, as
  functions of their own: what the add loop does with a reference that is new and not
  stored, what the removal loop does with one outdated reference, and what the rebuild
  does with one document.
\<close>

definition addLink :: "string \<Rightarrow> string \<Rightarrow> string \<Rightarrow> world \<Rightarrow> world" where
  "addLink e t r w =
     (case docs w r of
        None \<Rightarrow> debug (''no referenced entity '' @ r @ ''; skipping'') w
      | Some d \<Rightarrow>
          let links = (case flag_referencedBy d of None \<Rightarrow> [] | Some l \<Rightarrow> l) in
          if e \<in> set (linksOfType links t) then w
          else setFlag_referencedBy w r (AList.update t (linksOfType links t @ [e]) links))"

definition removeLink :: "string \<Rightarrow> string \<Rightarrow> string \<Rightarrow> world \<Rightarrow> world" where
  "removeLink e t r w =
     (case docs w r of
        None \<Rightarrow> debug (''outdated entity '' @ r @ '' does not exist'') w
      | Some target \<Rightarrow>
          (case flag_referencedBy target of
             None \<Rightarrow> w
           | Some links \<Rightarrow>
               if e \<in> set (linksOfType links t)
               then setFlag_referencedBy w r
                      (if remove1 e (linksOfType links t) \<noteq> []
                       then AList.update t (remove1 e (linksOfType links t)) links
                       else AList.delete t links)
               else w))"

definition wipeReferences :: "string \<Rightarrow> world \<Rightarrow> world" where
  "wipeReferences e w =
     (case docs w e of
        None \<Rightarrow> w
      | Some d \<Rightarrow> if flag_references d \<noteq> None then unsetFlag_references w e else w)"

definition rebuildOne :: "string \<Rightarrow> string \<Rightarrow> world \<Rightarrow> world" where
  "rebuildOne e t w =
     (let w1 = wipeReferences e w; content = getContent w1 e
      in if content \<noteq> [] then update w1 e t content True else w1)"

text \<open>The list \<open>updated\<close> that the add loop builds, from the list it starts with.\<close>

fun collectReferences :: "string \<Rightarrow> string \<Rightarrow> string list \<Rightarrow> string list \<Rightarrow> string list" where
  "collectReferences e t [] upd = upd"
| "collectReferences e t (r # refs) upd =
     (if fullReference e t r \<in> set upd then collectReferences e t refs upd
      else collectReferences e t refs (upd @ [fullReference e t r]))"

text \<open>The diagnostic that the add loop prints for a reference that does not resolve.\<close>

definition unresolvedDiagnostic :: "string \<Rightarrow> string" where
  "unresolvedDiagnostic r =
     MODULE_ID @ '' | journal-backlinks | DEBUG | no referenced entity '' @ r @ ''; skipping''"

text \<open>
  A small world for the concrete cases: two actors, the first linking twice to the
  second and once to an actor that does not exist, and an item owned by an actor (an
  embedded document: it resolves by UUID, and \<open>game.items\<close> does not list it) that links
  to the second actor. No flag is set, rebuild-on-save is on, debugging is off.
\<close>

definition plainDocument :: "string \<Rightarrow> string \<Rightarrow> document" where
  "plainDocument n c =
     \<lparr>doc_name = n, doc_parentName = None, doc_content = c,
      flag_references = None, flag_referencedBy = None\<rparr>"

definition alphaText :: string where
  "alphaText = ''see @UUID[Actor.b] and @UUID[Actor.gone], again @UUID[Actor.b]''"

definition itemText :: string where
  "itemText = ''made by @UUID[Actor.b]''"

definition exampleWorld :: world where
  "exampleWorld =
     \<lparr>docs = [''Actor.a'' \<mapsto> plainDocument ''Alpha'' alphaText,
              ''Actor.b'' \<mapsto> plainDocument ''Beta'' [],
              ''Actor.x.Item.i'' \<mapsto> plainDocument ''Tricorder'' itemText],
      journalPages = [], actors = [''Actor.a'', ''Actor.b''], items = [], tables = [],
      rebuildOnSave = True, debugSetting = False, console = []\<rparr>"

text \<open>The example world after the first actor has been saved.\<close>

definition linkedWorld :: world where
  "linkedWorld = update exampleWorld ''Actor.a'' ''Actor'' alphaText False"

text \<open>The example world after the item has been saved and the full rebuild has run.\<close>

definition staleWorld :: world where
  "staleWorld = sync (update exampleWorld ''Actor.x.Item.i'' ''Item'' itemText False)"

text \<open>A permission predicate of the host that throws for the first actor.\<close>

definition throwingPermission :: "string \<Rightarrow> error + bool" where
  "throwingPermission v = (if v = ''Actor.a'' then Inl (Thrown ''no ownership data'') else Inr True)"


section \<open>Properties of the warp calculator\<close>

lemma Num_minus: "Num a - Num b = Num (a - b)"
  by (simp add: minus_jsnum_def)

lemma LIGHT_YEARS_PER_DAY_AT_C_Num:
  "LIGHT_YEARS_PER_DAY_AT_C = Num (299792.458 * 86400 / 9461000000000)"
  by (simp add: LIGHT_YEARS_PER_DAY_AT_C_def SPEED_OF_LIGHT_KM_S_def SECONDS_PER_DAY_def
      KM_PER_LIGHT_YEAR_def)

lemma findBracket_Some_index:
  "findBracket w rows = Some s \<Longrightarrow>
     \<exists>i. i + 1 < length rows \<and> fst (rows ! i) \<le> w \<and> w \<le> fst (rows ! (i + 1))"
proof (induction w rows rule: findBracket.induct)
  case (1 w r1 r2 rest)
  show ?case
  proof (cases "w \<ge> fst r1 \<and> w \<le> fst r2")
    case True
    then have "0 + 1 < length (r1 # r2 # rest) \<and> fst ((r1 # r2 # rest) ! 0) \<le> w
        \<and> w \<le> fst ((r1 # r2 # rest) ! (0 + 1))"
      by simp
    then show ?thesis by blast
  next
    case False
    with 1 obtain i where
      "i + 1 < length (r2 # rest)" "fst ((r2 # rest) ! i) \<le> w" "w \<le> fst ((r2 # rest) ! (i + 1))"
      by auto
    then have "Suc i + 1 < length (r1 # r2 # rest) \<and> fst ((r1 # r2 # rest) ! Suc i) \<le> w
        \<and> w \<le> fst ((r1 # r2 # rest) ! (Suc i + 1))"
      by simp
    then show ?thesis by blast
  qed
qed simp_all

lemma findBracket_table:
  "9 \<le> w \<Longrightarrow> w \<le> 9.99 \<Longrightarrow> findBracket (Num w) TNG_SPEED_TABLE \<noteq> None"
  by (simp add: TNG_SPEED_TABLE_def)

text \<open>
  C8. The table is strictly increasing in the warp factors and in the speeds, and a warp
  factor from 9.0 to 9.99 lies between two adjacent rows: the loop of \<open>findSpeedAbove9\<close>
  returns from inside (it finds a bracketing pair) for such a warp factor.
\<close>

theorem TNG_SPEED_TABLE_increasing_and_bracketing:
  "sorted_wrt (<) (map fst TNG_SPEED_TABLE) \<and> sorted_wrt (<) (map snd TNG_SPEED_TABLE) \<and>
   (9 \<le> w \<and> w \<le> 9.99 \<longrightarrow>
      (\<exists>i. i + 1 < length TNG_SPEED_TABLE \<and> fst (TNG_SPEED_TABLE ! i) \<le> Num w
          \<and> Num w \<le> fst (TNG_SPEED_TABLE ! (i + 1))) \<and>
      (\<exists>s. findBracket (Num w) TNG_SPEED_TABLE = Some s))"
proof (intro conjI impI)
  show "sorted_wrt (<) (map fst TNG_SPEED_TABLE)"
    by (simp add: TNG_SPEED_TABLE_def)
  show "sorted_wrt (<) (map snd TNG_SPEED_TABLE)"
    by (simp add: TNG_SPEED_TABLE_def)
next
  assume w: "9 \<le> w \<and> w \<le> 9.99"
  then obtain s where s: "findBracket (Num w) TNG_SPEED_TABLE = Some s"
    using findBracket_table [of w] by auto
  then show "\<exists>s. findBracket (Num w) TNG_SPEED_TABLE = Some s" by blast
  from s show "\<exists>i. i + 1 < length TNG_SPEED_TABLE \<and> fst (TNG_SPEED_TABLE ! i) \<le> Num w
      \<and> Num w \<le> fst (TNG_SPEED_TABLE ! (i + 1))"
    by (rule findBracket_Some_index)
qed

theorem TNG_SPEED_TABLE_bracketing_witness:
  "(9::real) \<le> 9.95 \<and> (9.95::real) \<le> 9.99 \<and>
   (\<exists>i. i + 1 < length TNG_SPEED_TABLE \<and> fst (TNG_SPEED_TABLE ! i) \<le> Num 9.95
       \<and> Num 9.95 \<le> fst (TNG_SPEED_TABLE ! (i + 1))) \<and>
   (\<exists>s. findBracket (Num 9.95) TNG_SPEED_TABLE = Some s)"
  using TNG_SPEED_TABLE_increasing_and_bracketing [of "9.95"] by simp

text \<open>
  C9. At warp 9.5 the speed multiplier is the speed of the table row for 9.5, that is
  1894.85: the row is found as the upper end of the segment from 9.4 to 9.5, where the
  interpolation weight is 1.
\<close>

theorem warpToSpeedMultiplier_at_9_5:
  "(Num 9.5, Num 1894.85) \<in> set TNG_SPEED_TABLE \<and> warpToSpeedMultiplier (Num 9.5) = Num 1894.85"
  by (simp add: warpToSpeedMultiplier_def findSpeedAbove9_def TNG_SPEED_TABLE_def
      interpolate_def Num_minus)

lemma findSpeedAbove9_Num: "\<exists>r. findSpeedAbove9 (Num w) = Num r"
  by (simp add: findSpeedAbove9_def TNG_SPEED_TABLE_def interpolate_def Num_minus)

lemma warpToSpeedMultiplier_Num:
  assumes "w < 10"
  shows "\<exists>r. warpToSpeedMultiplier (Num w) = Num r"
  using assms findSpeedAbove9_Num [of w]
  by (auto simp: warpToSpeedMultiplier_def)

lemma clampResult_Num: "clampResult (Num x) = Num (min (max x 1) 9.99)"
  by (simp add: clampResult_def Math_max_def Math_min_def min_def max_def)

lemma clampResult_range: "\<exists>r. clampResult (Num x) = Num r \<and> 1 \<le> r \<and> r \<le> 9.99"
proof -
  have "1 \<le> min (max x 1) (9.99::real)" "min (max x 1) (9.99::real) \<le> 9.99" by simp_all
  then show ?thesis unfolding clampResult_Num by blast
qed

lemma newtonLoop_range:
  "1 \<le> x \<Longrightarrow> x \<le> 9.999 \<Longrightarrow>
     \<exists>r. newtonLoop n (Num t) (Num x) = Num r \<and> 1 \<le> r \<and> r \<le> 9.99"
proof (induction n arbitrary: x)
  case 0
  show ?case using clampResult_range [of x] by simp
next
  case (Suc n)
  obtain a where a: "warpToSpeedMultiplier (Num x) = Num a"
    using warpToSpeedMultiplier_Num [of x] Suc.prems by auto
  obtain b where b: "warpToSpeedMultiplier (Num x + Num (1 / 10 ^ 8)) = Num b"
    using warpToSpeedMultiplier_Num [of "x + 1 / 10 ^ 8"] Suc.prems by auto
  define d where "d = ((b - t) - (a - t)) / (1 / 10 ^ 8)"
  define y1 where "y1 = x - (a - t) / d"
  define y2 where "y2 = (if y1 < 1 then 1 else y1)"
  define y3 where "y3 = (if y2 > 9.999 then 9.999 else y2)"
  have y3: "1 \<le> y3" "y3 \<le> 9.999" by (auto simp: y3_def y2_def)
  have der: "Num (b - t - (a - t)) / Num (1 / 10 ^ 8) = Num d"
    by (simp add: d_def)
  have c1: "(if y1 < 1 then Num 1 else Num y1) = Num y2"
    by (simp add: y2_def)
  have c2: "(if y2 > 9.999 then Num 9.999 else Num y2) = Num y3"
    by (simp add: y3_def)
  show ?case
  proof (cases "\<bar>a - t\<bar> < 1 / 10 ^ 9")
    case True
    then have "newtonLoop (Suc n) (Num t) (Num x) = clampResult (Num x)"
      by (simp only: newtonLoop.simps Let_def a Num_minus abs_jsnum.simps less_jsnum.simps if_True)
    then show ?thesis using clampResult_range [of x] by simp
  next
    case nf: False
    show ?thesis
    proof (cases "\<bar>d\<bar> < 1 / 10 ^ 15")
      case True
      then have "newtonLoop (Suc n) (Num t) (Num x) = clampResult (Num x)"
        using nf
        by (simp only: newtonLoop.simps Let_def a b Num_minus der abs_jsnum.simps
            less_jsnum.simps if_True if_False)
      then show ?thesis using clampResult_range [of x] by simp
    next
      case False
      then have d0: "d \<noteq> 0" by auto
      have upd: "Num x - Num (a - t) / Num d = Num y1"
        using d0 by (simp add: y1_def Num_minus)
      have "newtonLoop (Suc n) (Num t) (Num x) = newtonLoop n (Num t) (Num y3)"
        using nf False
        by (simp only: newtonLoop.simps Let_def a b Num_minus der upd c1 c2 abs_jsnum.simps
            less_jsnum.simps if_True if_False)
      then show ?thesis using Suc.IH [OF y3] by simp
    qed
  qed
qed

lemma newtonLoop_converged:
  "0 < n \<Longrightarrow> \<bar>warpToSpeedMultiplier w - target\<bar> < Num (1 / 10 ^ 9)
    \<Longrightarrow> newtonLoop n target w = clampResult w"
  by (cases n) simp_all

lemma roundtrip_exact:
  assumes "1 \<le> w" "w \<le> 9"
  shows "speedMultiplierToWarp (warpToSpeedMultiplier (Num w)) = Some (Num w)"
proof -
  define t where "t = w powr (10 / 3)"
  have fwd: "warpToSpeedMultiplier (Num w) = Num t"
    using assms by (simp add: warpToSpeedMultiplier_def t_def)
  have t1: "1 \<le> t" using assms by (simp add: t_def ge_one_powr_ge_zero)
  have inv: "t powr (3 / 10) = w"
    using assms by (simp add: t_def powr_powr)
  have "newtonLoop 50 (Num t) (Num w) = clampResult (Num w)"
    by (rule newtonLoop_converged) (simp_all add: fwd Num_minus)
  moreover have "clampResult (Num w) = Num w"
    using assms by (simp add: clampResult_Num)
  ultimately show ?thesis
    using t1 assms by (simp add: fwd speedMultiplierToWarp_def Let_def inv)
qed

text \<open>
  The convergence test of the solver bounds the error of the estimate it accepts: on
  the range from 1 up the speed grows at least as fast as the warp factor, so a residual
  below the tolerance \<open>1e-9\<close> means an estimate within \<open>1e-9\<close> of the warp factor.
\<close>

lemma powr_gap:
  fixes a b :: real
  assumes "1 \<le> a" "a \<le> b"
  shows "b - a \<le> b powr (10 / 3) - a powr (10 / 3)"
proof -
  define g where "g = (\<lambda>x::real. x powr (10 / 3) - x)"
  have "g a \<le> g b"
  proof (rule DERIV_nonneg_imp_nondecreasing [OF assms(2)])
    fix x assume x: "a \<le> x" "x \<le> b"
    then have x1: "1 \<le> x" using assms by simp
    then have x0: "0 < x" by simp
    have "(g has_real_derivative (10 / 3 * x powr (10 / 3 - 1) - 1)) (at x)"
      unfolding g_def using x0
      by (auto intro!: derivative_eq_intros)
    moreover have "1 \<le> x powr (10 / 3 - 1)" using x1 by (simp add: ge_one_powr_ge_zero)
    then have "0 \<le> 10 / 3 * x powr (10 / 3 - 1) - 1" by simp
    ultimately show "\<exists>y. (g has_real_derivative y) (at x) \<and> 0 \<le> y" by blast
  qed
  then show ?thesis by (simp add: g_def)
qed

lemma residual_bounds_error:
  fixes x w e :: real
  assumes "1 \<le> x" "1 \<le> w" "\<bar>x powr (10 / 3) - w powr (10 / 3)\<bar> < e"
  shows "\<bar>x - w\<bar> < e"
proof (cases "w \<le> x")
  case True
  from powr_gap [OF assms(2) True] assms(3) True show ?thesis by linarith
next
  case False
  then have xw: "x \<le> w" by simp
  from powr_gap [OF assms(1) xw] assms(3) xw show ?thesis by linarith
qed

lemma newtonLoop_accepts_accurate:
  assumes "1 \<le> w" "1 \<le> x" "x \<le> 9"
    and "\<bar>x powr (10 / 3) - w powr (10 / 3)\<bar> < 1 / 10 ^ 9"
  shows "newtonLoop (Suc n) (Num (w powr (10 / 3))) (Num x) = Num x \<and> \<bar>x - w\<bar> < 1 / 10 ^ 9"
proof -
  have f: "warpToSpeedMultiplier (Num x) = Num (x powr (10 / 3))"
    using assms by (simp add: warpToSpeedMultiplier_def)
  have "newtonLoop (Suc n) (Num (w powr (10 / 3))) (Num x) = clampResult (Num x)"
    by (rule newtonLoop_converged) (use assms(4) in \<open>simp_all add: f Num_minus\<close>)
  moreover have "clampResult (Num x) = Num x"
    using assms by (simp add: clampResult_Num)
  moreover have "\<bar>x - w\<bar> < 1 / 10 ^ 9"
    by (rule residual_bounds_error [OF assms(2) assms(1) assms(4)])
  ultimately show ?thesis by simp
qed

text \<open>
  C3. For a warp factor \<open>w\<close> from 1 to 9, converting to a speed multiplier and back
  gives a warp factor within \<open>1e-6\<close> of \<open>w\<close>. (In the exact arithmetic of the model the
  initial guess of the solver already is \<open>w\<close>, the residual is 0 and the first test of
  the loop returns it.)
\<close>

theorem speedMultiplierToWarp_roundtrip:
  assumes "1 \<le> w" and "w \<le> 9"
  shows "\<exists>r. speedMultiplierToWarp (warpToSpeedMultiplier (Num w)) = Some (Num r)
           \<and> \<bar>r - w\<bar> \<le> 1 / 10 ^ 6"
  using roundtrip_exact [OF assms] by simp

theorem speedMultiplierToWarp_roundtrip_witness:
  "(1::real) \<le> 1 \<and> (1::real) \<le> 9 \<and>
   (\<exists>r. speedMultiplierToWarp (warpToSpeedMultiplier (Num 1)) = Some (Num r)
      \<and> \<bar>r - 1\<bar> \<le> 1 / 10 ^ 6)"
  using speedMultiplierToWarp_roundtrip [of 1] by simp

text \<open>
  C4. For a finite speed multiplier that is at least 1, \<open>speedMultiplierToWarp\<close> returns
  a number (never \<open>null\<close>), and the number lies in the range from 1 to 9.99, whether the
  loop converged, stopped on a vanishing derivative or used up its 50 iterations.
\<close>

theorem speedMultiplierToWarp_total_and_clamped:
  assumes "1 \<le> sm"
  shows "\<exists>r. speedMultiplierToWarp (Num sm) = Some (Num r) \<and> 1 \<le> r \<and> r \<le> 9.99"
proof -
  define x0 where "x0 = sm powr (3 / 10)"
  define x where "x = (if x0 > 9.99 then 9.5 else x0)"
  have "1 \<le> x0" using assms by (simp add: x0_def ge_one_powr_ge_zero)
  then have x: "1 \<le> x" "x \<le> 9.999" by (auto simp: x_def)
  have "speedMultiplierToWarp (Num sm) = Some (newtonLoop 50 (Num sm) (Num x))"
    using assms by (simp add: speedMultiplierToWarp_def Let_def x_def x0_def)
  then show ?thesis using newtonLoop_range [OF x, of 50 sm] by simp
qed

theorem speedMultiplierToWarp_total_and_clamped_witness:
  "(1::real) \<le> 1 \<and>
   (\<exists>r. speedMultiplierToWarp (Num 1) = Some (Num r) \<and> 1 \<le> r \<and> r \<le> 9.99)"
  using speedMultiplierToWarp_total_and_clamped [of 1] by simp

text \<open>
  C5, as stated, asks that \<open>calculateWarpFactor(0, t)\<close> gives a warp factor of at most 1.
  The code gives no warp factor there: the speed is 0, and \<open>speedMultiplierToWarp\<close>
  answers \<open>null\<close> for a speed that is not positive.
\<close>

theorem calculateWarpFactor_zero_distance_counterexample:
  "calculateWarpFactor (Num 0) (Num 1) = None"
  by (simp add: calculateWarpFactor_def speedMultiplierToWarp_def LIGHT_YEARS_PER_DAY_AT_C_Num)

text \<open>
  C5, amended. For every time \<open>t > 0\<close>, \<open>calculateWarpFactor(0, t)\<close> is \<open>null\<close>; and for
  every distance, \<open>calculateTime\<close> with a warp factor whose speed multiplier is zero is
  infinite.
\<close>

theorem calculateWarpFactor_zero_distance_and_calculateTime_zero_speed:
  "(0 < t \<longrightarrow> calculateWarpFactor (Num 0) (Num t) = None) \<and>
   (warpToSpeedMultiplier w = Num 0 \<longrightarrow> calculateTime w d = Infinity)"
  by (simp add: calculateWarpFactor_def speedMultiplierToWarp_def calculateTime_def
      LIGHT_YEARS_PER_DAY_AT_C_Num)

theorem calculateWarpFactor_zero_distance_and_calculateTime_zero_speed_witness:
  "(0::real) < 2 \<and> calculateWarpFactor (Num 0) (Num 2) = None \<and>
   warpToSpeedMultiplier (Num 0) = Num 0 \<and> calculateTime (Num 0) (Num 5) = Infinity"
  using calculateWarpFactor_zero_distance_and_calculateTime_zero_speed [of 2 "Num 0" "Num 5"]
  by (simp add: warpToSpeedMultiplier_def)


section \<open>Properties of the backlink maintenance\<close>

subsection \<open>The store and its views\<close>

lemma docs_eqI:
  assumes "staticOf p = staticOf q" "byOf p = byOf q" "refsOf p = refsOf q"
  shows "docs p = docs q"
proof
  fix u
  from assms have s: "staticOf p u = staticOf q u" and b: "byOf p u = byOf q u"
    and r: "refsOf p u = refsOf q u" by simp_all
  show "docs p u = docs q u"
  proof (cases "docs p u")
    case None
    with s show ?thesis by (simp add: staticOf_def)
  next
    case (Some d)
    with s have "docs q u \<noteq> None" by (cases "docs q u") (auto simp: staticOf_def)
    then obtain d' where d': "docs q u = Some d'" by auto
    with Some s b r have "d = d'" by (simp add: staticOf_def byOf_def refsOf_def)
    with Some d' show ?thesis by simp
  qed
qed

lemma live_static: "docs w u = None \<longleftrightarrow> staticOf w u = None"
  by (simp add: staticOf_def)

lemma live_by: "docs w u = None \<longleftrightarrow> byOf w u = None"
  by (simp add: byOf_def)

lemma static_live_eq: "staticOf p = staticOf q \<Longrightarrow> (docs p u = None) = (docs q u = None)"
  by (simp add: live_static)

lemma bucket_byOf:
  "bucket w u t = (case byOf w u of Some (Some l) \<Rightarrow> linksOfType l t | _ \<Rightarrow> [])"
  by (simp add: bucket_def byOf_def linksOfType_def split: option.splits)

lemma debug_frame [simp]:
  "docs (debug text w) = docs w" "settingsOf (debug text w) = settingsOf w"
  by (simp_all add: debug_def log_text_def settingsOf_def)

lemma debug_acc [simp]:
  "staticOf (debug text w) = staticOf w" "byOf (debug text w) = byOf w"
  "refsOf (debug text w) = refsOf w"
  by (simp_all add: staticOf_def byOf_def refsOf_def fun_eq_iff)

lemma setFlag_referencedBy_frame [simp]:
  "settingsOf (setFlag_referencedBy w u l) = settingsOf w"
  "console (setFlag_referencedBy w u l) = console w"
  "staticOf (setFlag_referencedBy w u l) = staticOf w"
  "refsOf (setFlag_referencedBy w u l) = refsOf w"
  by (auto simp: setFlag_referencedBy_def settingsOf_def staticOf_def refsOf_def fun_eq_iff
      split: option.splits)

lemma byOf_setFlag_referencedBy:
  "byOf (setFlag_referencedBy w u l) x =
     (if x = u \<and> docs w u \<noteq> None then Some (Some l) else byOf w x)"
  by (auto simp: setFlag_referencedBy_def byOf_def split: option.splits)

lemma setFlag_references_frame [simp]:
  "settingsOf (setFlag_references w u l) = settingsOf w"
  "console (setFlag_references w u l) = console w"
  "staticOf (setFlag_references w u l) = staticOf w"
  "byOf (setFlag_references w u l) = byOf w"
  by (auto simp: setFlag_references_def settingsOf_def staticOf_def byOf_def fun_eq_iff
      split: option.splits)

lemma refsOf_setFlag_references:
  "refsOf (setFlag_references w u l) x =
     (if x = u \<and> docs w u \<noteq> None then Some (Some l) else refsOf w x)"
  by (auto simp: setFlag_references_def refsOf_def split: option.splits)

lemma unsetFlag_referencedBy_frame [simp]:
  "settingsOf (unsetFlag_referencedBy w u) = settingsOf w"
  "console (unsetFlag_referencedBy w u) = console w"
  "staticOf (unsetFlag_referencedBy w u) = staticOf w"
  "refsOf (unsetFlag_referencedBy w u) = refsOf w"
  by (auto simp: unsetFlag_referencedBy_def settingsOf_def staticOf_def refsOf_def fun_eq_iff
      split: option.splits)

lemma byOf_unsetFlag_referencedBy:
  "byOf (unsetFlag_referencedBy w u) x =
     (if x = u \<and> docs w u \<noteq> None then Some None else byOf w x)"
  by (auto simp: unsetFlag_referencedBy_def byOf_def split: option.splits)

lemma unsetFlag_references_frame [simp]:
  "settingsOf (unsetFlag_references w u) = settingsOf w"
  "console (unsetFlag_references w u) = console w"
  "staticOf (unsetFlag_references w u) = staticOf w"
  "byOf (unsetFlag_references w u) = byOf w"
  by (auto simp: unsetFlag_references_def settingsOf_def staticOf_def byOf_def fun_eq_iff
      split: option.splits)

lemma refsOf_unsetFlag_references:
  "refsOf (unsetFlag_references w u) x =
     (if x = u \<and> docs w u \<noteq> None then Some None else refsOf w x)"
  by (auto simp: unsetFlag_references_def refsOf_def split: option.splits)

lemma addReferences_frame:
  "settingsOf (snd (addReferences e t ex refs (upd, w))) = settingsOf w \<and>
   staticOf (snd (addReferences e t ex refs (upd, w))) = staticOf w \<and>
   refsOf (snd (addReferences e t ex refs (upd, w))) = refsOf w"
proof (induction refs arbitrary: upd w)
  case Nil
  show ?case by simp
next
  case (Cons r refs)
  show ?case
    by (simp add: Let_def fromUuidSync_def Cons.IH split: option.splits)
qed

lemma addReferences_updated:
  "distinct upd \<Longrightarrow>
     distinct (fst (addReferences e t ex refs (upd, w))) \<and>
     set (fst (addReferences e t ex refs (upd, w))) = set upd \<union> fullReference e t ` set refs"
proof (induction refs arbitrary: upd w)
  case Nil
  then show ?case by simp
next
  case (Cons r refs)
  define x where "x = fullReference e t r"
  show ?case
  proof (cases "x \<in> set upd")
    case True
    then show ?thesis using Cons.IH [OF Cons.prems, of w] by (auto simp: x_def Let_def)
  next
    case False
    then have d: "distinct (upd @ [x])" using Cons.prems by simp
    from False show ?thesis
      using Cons.IH [OF d]
      by (auto simp: x_def [symmetric] Let_def fromUuidSync_def split: option.splits)
  qed
qed

lemma removeOutdated_frame:
  "settingsOf (removeOutdated e t out w) = settingsOf w \<and>
   staticOf (removeOutdated e t out w) = staticOf w \<and>
   refsOf (removeOutdated e t out w) = refsOf w"
proof (induction out arbitrary: w)
  case Nil
  show ?case by simp
next
  case (Cons r out)
  show ?case
    by (simp add: Let_def fromUuidSync_def Cons.IH split: option.splits)
qed

lemma update_static: "staticOf (update w e t c f) = staticOf w"
proof (cases "\<not> f \<and> \<not> rebuildOnSave w")
  case True
  then show ?thesis by (simp add: update_def)
next
  case False
  obtain upd w1 where a: "addReferences e t (existingReferences w e) (references c) ([], w) = (upd, w1)"
    by (cases "addReferences e t (existingReferences w e) (references c) ([], w)")
  have "staticOf w1 = staticOf w"
    using addReferences_frame [of e t "existingReferences w e" "references c" "[]" w] a by simp
  with False a show ?thesis
    by (simp add: update_def Let_def removeOutdated_frame)
qed

lemma update_references_flag:
  assumes live: "docs w e \<noteq> None" and run: "f \<or> rebuildOnSave w"
  shows "\<exists>upd. refsOf (update w e t c f) e = Some (Some upd) \<and> distinct upd \<and>
           set upd = fullReference e t ` set (references c)"
proof -
  obtain upd w1 where a: "addReferences e t (existingReferences w e) (references c) ([], w) = (upd, w1)"
    by (cases "addReferences e t (existingReferences w e) (references c) ([], w)")
  define w2 where "w2 = removeOutdated e t (filter (\<lambda>v. v \<notin> set upd) (existingReferences w e)) w1"
  have u: "update w e t c f = setFlag_references w2 e upd"
    using run a by (auto simp: update_def Let_def w2_def)
  have "staticOf w1 = staticOf w"
    using addReferences_frame [of e t "existingReferences w e" "references c" "[]" w] a by simp
  then have "staticOf w2 = staticOf w"
    by (simp add: w2_def removeOutdated_frame)
  with live have "docs w2 e \<noteq> None" by (simp add: live_static)
  then have "refsOf (update w e t c f) e = Some (Some upd)"
    by (simp add: u refsOf_setFlag_references)
  moreover have "distinct upd \<and> set upd = fullReference e t ` set (references c)"
    using addReferences_updated [of "[]" e t "existingReferences w e" "references c" w] a by simp
  ultimately show ?thesis by blast
qed

subsection \<open>The add loop\<close>

lemma linksOfType_update:
  "linksOfType (AList.update t v l) t' = (if t' = t then v else linksOfType l t')"
  by (simp add: linksOfType_def update_conv')

lemma linksOfType_delete:
  "linksOfType (AList.delete t l) t' = (if t' = t then [] else linksOfType l t')"
  by (simp add: linksOfType_def delete_conv')

lemma bucket_eqI: "byOf p u = byOf q u \<Longrightarrow> bucket p u t = bucket q u t"
  by (simp add: bucket_byOf)

lemma bucket_dead: "docs w u = None \<Longrightarrow> bucket w u t = []"
  by (simp add: bucket_def)

lemma bucket_setFlag_referencedBy:
  "docs w r \<noteq> None \<Longrightarrow>
     bucket (setFlag_referencedBy w r l) u t = (if u = r then linksOfType l t else bucket w u t)"
  by (simp add: bucket_byOf byOf_setFlag_referencedBy)

lemma addReferences_Cons:
  "addReferences e t ex (r # refs) (upd, w) =
     (let x = fullReference e t r in
      if x \<in> set upd then addReferences e t ex refs (upd, w)
      else if x \<in> set ex then addReferences e t ex refs (upd @ [x], w)
      else addReferences e t ex refs (upd @ [x], addLink e t x w))"
  by (simp add: Let_def addLink_def fromUuidSync_def split: option.splits)

declare addReferences.simps(2) [simp del]

lemma addLink_frame [simp]:
  "settingsOf (addLink e t r w) = settingsOf w"
  "staticOf (addLink e t r w) = staticOf w"
  "refsOf (addLink e t r w) = refsOf w"
  by (simp_all add: addLink_def Let_def split: option.splits)

lemma addLink_live [simp]: "(docs (addLink e t r w) u = None) = (docs w u = None)"
  using addLink_frame(2) [of e t r w] by (simp add: live_static)

lemma byOf_addLink_other: "u \<noteq> r \<Longrightarrow> byOf (addLink e t r w) u = byOf w u"
  by (simp add: addLink_def Let_def byOf_setFlag_referencedBy split: option.splits)

lemma bucket_addLink:
  "bucket (addLink e t r w) u t' =
     (if u = r \<and> t' = t \<and> docs w r \<noteq> None \<and> e \<notin> set (bucket w r t)
      then bucket w r t @ [e] else bucket w u t')"
proof (cases "docs w r")
  case None
  then show ?thesis by (simp add: addLink_def bucket_byOf)
next
  case (Some d)
  define links where "links = (case flag_referencedBy d of None \<Rightarrow> [] | Some l \<Rightarrow> l)"
  have b: "bucket w r t'' = linksOfType links t''" for t''
    using Some by (simp add: bucket_def links_def)
  have l: "docs w r \<noteq> None" using Some by simp
  show ?thesis
  proof (cases "e \<in> set (linksOfType links t)")
    case True
    then have "addLink e t r w = w"
      using Some by (simp add: addLink_def links_def [symmetric])
    then show ?thesis using True b by simp
  next
    case False
    then have "addLink e t r w =
        setFlag_referencedBy w r (AList.update t (linksOfType links t @ [e]) links)"
      using Some by (simp add: addLink_def links_def [symmetric])
    then show ?thesis
      using False b l by (auto simp: bucket_setFlag_referencedBy linksOfType_update)
  qed
qed

lemma addLink_noop:
  "docs w r = None \<or> e \<in> set (bucket w r t) \<Longrightarrow> docs (addLink e t r w) = docs w"
  by (auto simp: addLink_def Let_def bucket_def split: option.splits)

lemma addReferences_by_other:
  "u \<notin> fullReference e t ` set refs \<Longrightarrow>
     byOf (snd (addReferences e t ex refs (upd, w))) u = byOf w u"
proof (induction refs arbitrary: upd w)
  case Nil
  show ?case by simp
next
  case (Cons r refs)
  then have "u \<noteq> fullReference e t r" "u \<notin> fullReference e t ` set refs" by auto
  then show ?case
    by (simp add: addReferences_Cons Let_def Cons.IH byOf_addLink_other)
qed

lemma addReferences_mono:
  "x \<in> set (bucket w u t') \<Longrightarrow> x \<in> set (bucket (snd (addReferences e t ex refs (upd, w))) u t')"
proof (induction refs arbitrary: upd w)
  case Nil
  then show ?case by simp
next
  case (Cons r refs)
  have "x \<in> set (bucket (addLink e t (fullReference e t r) w) u t')"
    using Cons.prems by (auto simp: bucket_addLink)
  then show ?case
    using Cons.prems by (simp add: addReferences_Cons Let_def Cons.IH)
qed

lemma addReferences_live:
  "(docs (snd (addReferences e t ex refs (upd, w))) u = None) = (docs w u = None)"
  using addReferences_frame [of e t ex refs upd w] by (simp add: live_static)

lemma addReferences_member:
  "r \<in> fullReference e t ` set refs \<Longrightarrow> r \<notin> set upd \<Longrightarrow> r \<notin> set ex \<Longrightarrow> docs w r \<noteq> None
     \<Longrightarrow> e \<in> set (bucket (snd (addReferences e t ex refs (upd, w))) r t)"
proof (induction refs arbitrary: upd w)
  case Nil
  then show ?case by simp
next
  case (Cons a refs)
  define x where "x = fullReference e t a"
  show ?case
  proof (cases "x = r")
    case True
    have "e \<in> set (bucket (addLink e t r w) r t)"
      using Cons.prems by (simp add: bucket_addLink)
    then have "e \<in> set (bucket (snd (addReferences e t ex refs (upd @ [r], addLink e t r w))) r t)"
      by (rule addReferences_mono)
    then show ?thesis using Cons.prems True by (simp add: addReferences_Cons x_def [symmetric])
  next
    case False
    then have r: "r \<in> fullReference e t ` set refs" using Cons.prems by (auto simp: x_def)
    have n: "r \<notin> set (upd @ [x])" using False Cons.prems by simp
    have l: "docs (addLink e t x w) r \<noteq> None" using Cons.prems by simp
    show ?thesis
      using Cons.IH [OF r Cons.prems(2) Cons.prems(3) Cons.prems(4)]
        Cons.IH [OF r n Cons.prems(3) Cons.prems(4)]
        Cons.IH [OF r n Cons.prems(3) l]
      by (simp add: addReferences_Cons x_def [symmetric] Let_def)
  qed
qed

lemma addReferences_noop:
  "(\<forall>r \<in> fullReference e t ` set refs.
      r \<in> set upd \<or> r \<in> set ex \<or> docs w r = None \<or> e \<in> set (bucket w r t))
   \<Longrightarrow> docs (snd (addReferences e t ex refs (upd, w))) = docs w"
proof (induction refs arbitrary: upd w)
  case Nil
  show ?case by simp
next
  case (Cons a refs)
  define x where "x = fullReference e t a"
  have hx: "x \<in> set upd \<or> x \<in> set ex \<or> docs w x = None \<or> e \<in> set (bucket w x t)"
    using Cons.prems by (simp add: x_def)
  have rest0: "\<forall>r \<in> fullReference e t ` set refs.
      r \<in> set upd \<or> r \<in> set ex \<or> docs w r = None \<or> e \<in> set (bucket w r t)"
    using Cons.prems by auto
  have rest1: "\<forall>r \<in> fullReference e t ` set refs.
      r \<in> set (upd @ [x]) \<or> r \<in> set ex \<or> docs w r = None \<or> e \<in> set (bucket w r t)"
    using Cons.prems by auto
  show ?case
  proof (cases "x \<in> set upd")
    case True
    then show ?thesis using Cons.IH [OF rest0] by (simp add: addReferences_Cons x_def [symmetric])
  next
    case nu: False
    show ?thesis
    proof (cases "x \<in> set ex")
      case True
      then show ?thesis using nu Cons.IH [OF rest1]
        by (simp add: addReferences_Cons x_def [symmetric])
    next
      case False
      with nu hx have "docs w x = None \<or> e \<in> set (bucket w x t)" by simp
      then have d: "docs (addLink e t x w) = docs w" by (rule addLink_noop)
      then have b: "bucket (addLink e t x w) = bucket w" by (simp add: bucket_def fun_eq_iff)
      have "\<forall>r \<in> fullReference e t ` set refs.
          r \<in> set (upd @ [x]) \<or> r \<in> set ex \<or> docs (addLink e t x w) r = None
            \<or> e \<in> set (bucket (addLink e t x w) r t)"
        using rest1 by (simp add: d b)
      from Cons.IH [OF this] show ?thesis
        using nu False by (simp add: addReferences_Cons x_def [symmetric] d)
    qed
  qed
qed

subsection \<open>The removal loop\<close>

lemma removeOutdated_Cons:
  "removeOutdated e t (r # rest) w = removeOutdated e t rest (removeLink e t r w)"
  by (simp add: Let_def removeLink_def fromUuidSync_def split: option.splits)

declare removeOutdated.simps(2) [simp del]

lemma removeLink_frame [simp]:
  "settingsOf (removeLink e t r w) = settingsOf w"
  "staticOf (removeLink e t r w) = staticOf w"
  "refsOf (removeLink e t r w) = refsOf w"
  by (simp_all add: removeLink_def split: option.splits)

lemma byOf_removeLink_other: "u \<noteq> r \<Longrightarrow> byOf (removeLink e t r w) u = byOf w u"
  by (simp add: removeLink_def byOf_setFlag_referencedBy split: option.splits)

lemma bucketEntry_byOf:
  "bucketEntry w u t = (case byOf w u of Some (Some l) \<Rightarrow> map_of l t | _ \<Rightarrow> None)"
  by (simp add: bucketEntry_def byOf_def split: option.splits)

lemma removeLink_at:
  assumes "e \<in> set (bucket w r t)"
  shows "bucket (removeLink e t r w) r t = remove1 e (bucket w r t)"
    and "bucketEntry (removeLink e t r w) r t \<noteq> Some []"
proof -
  from assms obtain d where d: "docs w r = Some d"
    by (cases "docs w r") (auto simp: bucket_def)
  with assms obtain links where links: "flag_referencedBy d = Some links"
    by (cases "flag_referencedBy d") (auto simp: bucket_def linksOfType_def)
  have b: "bucket w r t = linksOfType links t"
    using d links by (simp add: bucket_def)
  define links' where "links' = (if remove1 e (linksOfType links t) \<noteq> []
      then AList.update t (remove1 e (linksOfType links t)) links else AList.delete t links)"
  have r: "removeLink e t r w = setFlag_referencedBy w r links'"
    using assms d links b by (simp add: removeLink_def links'_def)
  have l: "docs w r \<noteq> None" using d by simp
  show "bucket (removeLink e t r w) r t = remove1 e (bucket w r t)"
    using l by (simp add: r bucket_setFlag_referencedBy b links'_def linksOfType_update
        linksOfType_delete)
  show "bucketEntry (removeLink e t r w) r t \<noteq> Some []"
    using l by (simp add: r bucketEntry_byOf byOf_setFlag_referencedBy links'_def update_conv'
        delete_conv')
qed

lemma removeOutdated_by_other:
  "u \<notin> set out \<Longrightarrow> byOf (removeOutdated e t out w) u = byOf w u"
proof (induction out arbitrary: w)
  case Nil
  show ?case by simp
next
  case (Cons r out)
  then show ?case by (simp add: removeOutdated_Cons byOf_removeLink_other)
qed

lemma removeOutdated_at:
  "distinct out \<Longrightarrow> r \<in> set out \<Longrightarrow> e \<in> set (bucket w r t) \<Longrightarrow>
     bucket (removeOutdated e t out w) r t = remove1 e (bucket w r t) \<and>
     bucketEntry (removeOutdated e t out w) r t \<noteq> Some []"
proof (induction out arbitrary: w)
  case Nil
  then show ?case by simp
next
  case (Cons a out)
  show ?case
  proof (cases "a = r")
    case True
    then have "r \<notin> set out" using Cons.prems by simp
    then have "byOf (removeOutdated e t out (removeLink e t r w)) r = byOf (removeLink e t r w) r"
      by (rule removeOutdated_by_other)
    then show ?thesis
      using True removeLink_at [OF Cons.prems(3)]
      by (simp add: removeOutdated_Cons bucket_byOf bucketEntry_byOf)
  next
    case False
    then have "byOf (removeLink e t a w) r = byOf w r" by (simp add: byOf_removeLink_other)
    then have b: "bucket (removeLink e t a w) r t = bucket w r t" by (rule bucket_eqI)
    with Cons.prems have m: "e \<in> set (bucket (removeLink e t a w) r t)" by simp
    from Cons.prems False have "distinct out" "r \<in> set out" by auto
    from Cons.IH [OF this m] show ?thesis by (simp add: removeOutdated_Cons b)
  qed
qed

lemma addReferences_fst_indep:
  "fst (addReferences e t ex refs (upd, w)) = fst (addReferences e t ex refs (upd, w'))"
proof (induction refs arbitrary: upd w w')
  case Nil
  show ?case by simp
next
  case (Cons r refs)
  show ?case
    using Cons.IH by (simp add: addReferences_Cons Let_def)
qed


subsection \<open>The incremental update\<close>

lemma update_gated: "\<not> f \<Longrightarrow> \<not> rebuildOnSave w \<Longrightarrow> update w e t c f = w"
  by (simp add: update_def)

lemma update_unfold:
  assumes "f \<or> rebuildOnSave w"
  obtains upd w1 where
    "addReferences e t (existingReferences w e) (references c) ([], w) = (upd, w1)"
    "update w e t c f =
       setFlag_references
         (removeOutdated e t (filter (\<lambda>v. v \<notin> set upd) (existingReferences w e)) w1) e upd"
    "distinct upd" "set upd = fullReference e t ` set (references c)"
proof -
  obtain upd w1 where a: "addReferences e t (existingReferences w e) (references c) ([], w) = (upd, w1)"
    by (cases "addReferences e t (existingReferences w e) (references c) ([], w)")
  have "update w e t c f =
       setFlag_references
         (removeOutdated e t (filter (\<lambda>v. v \<notin> set upd) (existingReferences w e)) w1) e upd"
    using assms a by (auto simp: update_def Let_def)
  moreover have "distinct upd \<and> set upd = fullReference e t ` set (references c)"
    using addReferences_updated [of "[]" e t "existingReferences w e" "references c" w] a by simp
  ultimately show ?thesis using that a by blast
qed

lemma update_settings: "settingsOf (update w e t c f) = settingsOf w"
proof (cases "f \<or> rebuildOnSave w")
  case False
  then show ?thesis by (simp add: update_def)
next
  case True
  obtain upd w1 where
    a: "addReferences e t (existingReferences w e) (references c) ([], w) = (upd, w1)" and
    u: "update w e t c f =
       setFlag_references
         (removeOutdated e t (filter (\<lambda>v. v \<notin> set upd) (existingReferences w e)) w1) e upd" and
    "distinct upd" and "set upd = fullReference e t ` set (references c)"
    by (rule update_unfold [OF True, of e t c])
  have "settingsOf w1 = settingsOf w"
    using addReferences_frame [of e t "existingReferences w e" "references c" "[]" w] a by simp
  then show ?thesis by (simp add: u removeOutdated_frame)
qed

lemma update_live: "(docs (update w e t c f) u = None) = (docs w u = None)"
  using update_static [of w e t c f] by (simp add: live_static)

lemma existingReferences_refsOf:
  "existingReferences w e = (case refsOf w e of Some (Some l) \<Rightarrow> l | _ \<Rightarrow> [])"
  by (simp add: existingReferences_def refsOf_def split: option.splits)

text \<open>
  C10. After a run of \<open>update\<close> that the rebuild-on-save gate does not skip, the
  \<open>references\<close> flag stored on the entity lists every extracted reference (relative
  ones completed) exactly once, however often the content repeats a link marker. A
  reference that does not resolve is in the list as well, and no document comes into
  being for it, so that nothing holds an incoming edge for it.
\<close>

theorem update_persists_each_reference_once:
  assumes live: "docs w entity = Some d" and run: "force \<or> rebuildOnSave w"
  shows "\<exists>d' updated.
           docs (update w entity entityType content force) entity = Some d' \<and>
           flag_references d' = Some updated \<and> distinct updated \<and>
           set updated = fullReference entity entityType ` set (references content) \<and>
           (\<forall>r \<in> set updated. docs w r = None \<longrightarrow>
              docs (update w entity entityType content force) r = None)"
proof -
  from live have "docs w entity \<noteq> None" by simp
  from update_references_flag [OF this run, of entityType content]
  obtain upd where u: "refsOf (update w entity entityType content force) entity = Some (Some upd)"
    "distinct upd" "set upd = fullReference entity entityType ` set (references content)"
    by (elim exE conjE)
  from u(1) obtain d' where "docs (update w entity entityType content force) entity = Some d'"
    "flag_references d' = Some upd"
    by (auto simp: refsOf_def)
  with u(2,3) show ?thesis by (simp add: update_live)
qed

theorem update_persists_each_reference_once_witness:
  "docs exampleWorld ''Actor.a'' = Some (plainDocument ''Alpha'' alphaText) \<and>
   (False \<or> rebuildOnSave exampleWorld) \<and>
   (\<exists>d' updated.
      docs (update exampleWorld ''Actor.a'' ''Actor'' alphaText False) ''Actor.a'' = Some d' \<and>
      flag_references d' = Some updated \<and> distinct updated \<and>
      set updated = fullReference ''Actor.a'' ''Actor'' ` set (references alphaText) \<and>
      (\<forall>r \<in> set updated. docs exampleWorld r = None \<longrightarrow>
         docs (update exampleWorld ''Actor.a'' ''Actor'' alphaText False) r = None))"
proof -
  have h1: "docs exampleWorld ''Actor.a'' = Some (plainDocument ''Alpha'' alphaText)"
    by (simp add: exampleWorld_def)
  have h2: "False \<or> rebuildOnSave exampleWorld"
    by (simp add: exampleWorld_def)
  note c = update_persists_each_reference_once [OF h1 h2, of "''Actor''" alphaText]
  show ?thesis by (rule conjI [OF h1 conjI [OF h2 c]])
qed

lemma at_most_once_append:
  "a \<notin> set (remove1 a xs) \<Longrightarrow> a \<notin> set xs \<Longrightarrow> a \<notin> set (remove1 a (xs @ [a]))"
  by (simp add: remove1_append)

lemma addLink_once:
  assumes "a \<notin> set (remove1 a (bucket w u t'))"
  shows "a \<notin> set (remove1 a (bucket (addLink e t r w) u t'))"
proof (cases "u = r \<and> t' = t \<and> docs w r \<noteq> None \<and> e \<notin> set (bucket w r t)")
  case True
  then have b: "bucket (addLink e t r w) u t' = bucket w u t' @ [e]"
    by (simp add: bucket_addLink)
  from True have n: "e \<notin> set (bucket w u t')" by simp
  show ?thesis
  proof (cases "a = e")
    case True
    with n show ?thesis by (simp add: b remove1_append)
  next
    case False
    with assms show ?thesis by (simp add: b remove1_append)
  qed
next
  case False
  then have "bucket (addLink e t r w) u t' = bucket w u t'"
    by (simp add: bucket_addLink)
  with assms show ?thesis by simp
qed

lemma addReferences_once:
  "a \<notin> set (remove1 a (bucket w u t')) \<Longrightarrow>
     a \<notin> set (remove1 a (bucket (snd (addReferences e t ex refs (upd, w))) u t'))"
proof (induction refs arbitrary: upd w)
  case Nil
  then show ?case by simp
next
  case (Cons r refs)
  from addLink_once [OF Cons.prems]
  have "a \<notin> set (remove1 a (bucket (addLink e t (fullReference e t r) w) u t'))" .
  then show ?case
    using Cons.prems by (simp add: addReferences_Cons Let_def Cons.IH)
qed

lemma update_by:
  assumes run: "f \<or> rebuildOnSave w"
    and a: "addReferences e t (existingReferences w e) (references c) ([], w) = (upd, w1)"
  shows "byOf (update w e t c f) =
     byOf (removeOutdated e t (filter (\<lambda>v. v \<notin> set upd) (existingReferences w e)) w1)"
  using run a by (auto simp: update_def Let_def)

lemma update_adds:
  assumes res: "docs w r \<noteq> None"
    and link: "r \<in> fullReference A T ` set (references c)"
    and run: "f \<or> rebuildOnSave w"
    and cons: "r \<in> set (existingReferences w A) \<longrightarrow> A \<in> set (bucket w r T)"
  shows "A \<in> set (bucket (update w A T c f) r T)"
proof -
  obtain upd w1 where
    a: "addReferences A T (existingReferences w A) (references c) ([], w) = (upd, w1)" and
    "update w A T c f =
       setFlag_references
         (removeOutdated A T (filter (\<lambda>v. v \<notin> set upd) (existingReferences w A)) w1) A upd" and
    "distinct upd" and
    u: "set upd = fullReference A T ` set (references c)"
    by (rule update_unfold [OF run, of A T c])
  have w1: "w1 = snd (addReferences A T (existingReferences w A) (references c) ([], w))"
    using a by simp
  have m1: "A \<in> set (bucket w1 r T)"
  proof (cases "r \<in> set (existingReferences w A)")
    case True
    with cons have "A \<in> set (bucket w r T)" by simp
    then show ?thesis unfolding w1 by (rule addReferences_mono)
  next
    case False
    show ?thesis unfolding w1
      by (rule addReferences_member [OF link _ False res]) simp
  qed
  have "r \<notin> set (filter (\<lambda>v. v \<notin> set upd) (existingReferences w A))"
    using link u by simp
  then have "byOf (removeOutdated A T (filter (\<lambda>v. v \<notin> set upd) (existingReferences w A)) w1) r
      = byOf w1 r"
    by (rule removeOutdated_by_other)
  then have "byOf (update w A T c f) r = byOf w1 r"
    by (simp add: update_by [OF run a])
  then have "bucket (update w A T c f) r T = bucket w1 r T" by (rule bucket_eqI)
  with m1 show ?thesis by simp
qed

lemma update_once:
  assumes link: "r \<in> fullReference A T ` set (references c)"
    and run: "f \<or> rebuildOnSave w"
    and once: "A \<notin> set (remove1 A (bucket w r T))"
  shows "A \<notin> set (remove1 A (bucket (update w A T c f) r T))"
proof -
  obtain upd w1 where
    a: "addReferences A T (existingReferences w A) (references c) ([], w) = (upd, w1)" and
    "update w A T c f =
       setFlag_references
         (removeOutdated A T (filter (\<lambda>v. v \<notin> set upd) (existingReferences w A)) w1) A upd" and
    "distinct upd" and
    u: "set upd = fullReference A T ` set (references c)"
    by (rule update_unfold [OF run, of A T c])
  have w1: "w1 = snd (addReferences A T (existingReferences w A) (references c) ([], w))"
    using a by simp
  have m1: "A \<notin> set (remove1 A (bucket w1 r T))"
    unfolding w1 using once by (rule addReferences_once)
  have "r \<notin> set (filter (\<lambda>v. v \<notin> set upd) (existingReferences w A))"
    using link u by simp
  then have "byOf (removeOutdated A T (filter (\<lambda>v. v \<notin> set upd) (existingReferences w A)) w1) r
      = byOf w1 r"
    by (rule removeOutdated_by_other)
  then have "byOf (update w A T c f) r = byOf w1 r"
    by (simp add: update_by [OF run a])
  then have "bucket (update w A T c f) r T = bucket w1 r T" by (rule bucket_eqI)
  with m1 show ?thesis by simp
qed

lemma update_removes:
  assumes live: "docs w A \<noteq> None"
    and stored: "r \<in> set (existingReferences w A)" "distinct (existingReferences w A)"
    and member: "A \<in> set (bucket w r T)"
    and once: "A \<notin> set (remove1 A (bucket w r T))"
    and gone: "r \<notin> fullReference A T ` set (references c)"
    and run: "f \<or> rebuildOnSave w"
  shows "A \<notin> set (bucket (update w A T c f) r T) \<and> bucketEntry (update w A T c f) r T \<noteq> Some []"
proof -
  obtain upd w1 where
    a: "addReferences A T (existingReferences w A) (references c) ([], w) = (upd, w1)" and
    "update w A T c f =
       setFlag_references
         (removeOutdated A T (filter (\<lambda>v. v \<notin> set upd) (existingReferences w A)) w1) A upd" and
    "distinct upd" and
    u: "set upd = fullReference A T ` set (references c)"
    by (rule update_unfold [OF run, of A T c])
  have w1: "w1 = snd (addReferences A T (existingReferences w A) (references c) ([], w))"
    using a by simp
  have "byOf w1 r = byOf w r"
    unfolding w1 using gone by (rule addReferences_by_other)
  then have b1: "bucket w1 r T = bucket w r T" by (rule bucket_eqI)
  define out where "out = filter (\<lambda>v. v \<notin> set upd) (existingReferences w A)"
  have out: "distinct out" "r \<in> set out"
    using stored gone u by (simp_all add: out_def)
  have m: "A \<in> set (bucket w1 r T)" using member b1 by simp
  from removeOutdated_at [OF out m]
  have "bucket (removeOutdated A T out w1) r T = remove1 A (bucket w r T)"
    "bucketEntry (removeOutdated A T out w1) r T \<noteq> Some []"
    by (simp_all add: b1)
  moreover have "byOf (update w A T c f) = byOf (removeOutdated A T out w1)"
    using update_by [OF run a] by (simp add: out_def)
  ultimately show ?thesis
    using once by (simp add: bucket_byOf bucketEntry_byOf)
qed

text \<open>
  C1, as stated, fails in a state that the module reaches by itself. The item of the
  example world is saved and the second actor gets its backlink; the full rebuild wipes
  that backlink and does not visit the item, which is not in \<open>game.items\<close>, so the item
  keeps its \<open>references\<close>; when the item is saved again with the same link, the update
  finds the link among the stored references, skips it, and the actor stays without
  the backlink.
\<close>

theorem backlink_roundtrip_counterexample:
  "''Actor.b'' \<in> set (references itemText) \<and>
   bucket (update exampleWorld ''Actor.x.Item.i'' ''Item'' itemText False) ''Actor.b'' ''Item''
     = [''Actor.x.Item.i''] \<and>
   docs staleWorld ''Actor.x.Item.i'' \<noteq> None \<and> docs staleWorld ''Actor.b'' \<noteq> None \<and>
   rebuildOnSave staleWorld \<and>
   existingReferences staleWorld ''Actor.x.Item.i'' = [''Actor.b''] \<and>
   bucket staleWorld ''Actor.b'' ''Item'' = [] \<and>
   bucket (update staleWorld ''Actor.x.Item.i'' ''Item'' itemText False) ''Actor.b'' ''Item'' = []"
  by code_simp

text \<open>
  C1, amended. Let \<open>A\<close> be a live document, let the content link to the live document
  \<open>r\<close>, let the update not be skipped by the gate, and let the stored state be
  consistent for the pair: if the \<open>references\<close> flag of \<open>A\<close> already lists \<open>r\<close>, then
  the bucket of \<open>r\<close> for the kind of \<open>A\<close> already holds \<open>A\<close>. Then after the update
  the bucket holds \<open>A\<close>. If moreover \<open>A\<close> was in that bucket at most once, a following
  update of \<open>A\<close> with content that no longer links to \<open>r\<close> leaves the bucket without
  \<open>A\<close>, and the flag has no empty list under that kind.
\<close>

theorem backlink_roundtrip_from_consistent_state:
  assumes live: "docs w A \<noteq> None" and res: "docs w r \<noteq> None"
    and link: "r \<in> fullReference A T ` set (references content1)"
    and run1: "force1 \<or> rebuildOnSave w"
    and cons: "r \<in> set (existingReferences w A) \<longrightarrow> A \<in> set (bucket w r T)"
  shows "A \<in> set (bucket (update w A T content1 force1) r T) \<and>
         (A \<notin> set (remove1 A (bucket w r T)) \<and>
          r \<notin> fullReference A T ` set (references content2) \<and>
          (force2 \<or> rebuildOnSave w) \<longrightarrow>
            A \<notin> set (bucket (update (update w A T content1 force1) A T content2 force2) r T) \<and>
            bucketEntry (update (update w A T content1 force1) A T content2 force2) r T \<noteq> Some [])"
proof (intro conjI impI)
  define w1 where "w1 = update w A T content1 force1"
  show m: "A \<in> set (bucket (update w A T content1 force1) r T)"
    by (rule update_adds [OF res link run1 cons])
  assume h: "A \<notin> set (remove1 A (bucket w r T)) \<and>
          r \<notin> fullReference A T ` set (references content2) \<and>
          (force2 \<or> rebuildOnSave w)"
  from update_references_flag [OF live run1, of T content1]
  obtain upd where "refsOf w1 A = Some (Some upd)" "distinct upd"
    "set upd = fullReference A T ` set (references content1)"
    unfolding w1_def by (elim exE conjE)
  then have ex: "r \<in> set (existingReferences w1 A)" "distinct (existingReferences w1 A)"
    using link by (simp_all add: existingReferences_refsOf)
  have live1: "docs w1 A \<noteq> None" using live by (simp add: w1_def update_live)
  have "settingsOf w1 = settingsOf w" by (simp add: w1_def update_settings)
  then have run2: "force2 \<or> rebuildOnSave w1" using h by (simp add: settingsOf_def)
  have once1: "A \<notin> set (remove1 A (bucket w1 r T))"
    unfolding w1_def using h by (intro update_once [OF link run1]) simp
  have m1: "A \<in> set (bucket w1 r T)" using m by (simp add: w1_def)
  from update_removes [OF live1 ex m1 once1 _ run2, of content2] h
  have "A \<notin> set (bucket (update w1 A T content2 force2) r T) \<and>
      bucketEntry (update w1 A T content2 force2) r T \<noteq> Some []"
    by simp
  then show "A \<notin> set (bucket (update (update w A T content1 force1) A T content2 force2) r T)"
    and "bucketEntry (update (update w A T content1 force1) A T content2 force2) r T \<noteq> Some []"
    by (simp_all add: w1_def)
qed


theorem backlink_roundtrip_from_consistent_state_witness:
  "docs linkedWorld ''Actor.a'' \<noteq> None \<and> docs linkedWorld ''Actor.b'' \<noteq> None \<and>
   ''Actor.b'' \<in> fullReference ''Actor.a'' ''Actor'' ` set (references alphaText) \<and>
   (False \<or> rebuildOnSave linkedWorld) \<and>
   ''Actor.b'' \<in> set (existingReferences linkedWorld ''Actor.a'') \<and>
   ''Actor.a'' \<in> set (bucket linkedWorld ''Actor.b'' ''Actor'') \<and>
   ''Actor.a'' \<notin> set (remove1 ''Actor.a'' (bucket linkedWorld ''Actor.b'' ''Actor'')) \<and>
   ''Actor.b'' \<notin> fullReference ''Actor.a'' ''Actor'' ` set (references ''no link'') \<and>
   ''Actor.a'' \<in> set (bucket (update linkedWorld ''Actor.a'' ''Actor'' alphaText False)
                        ''Actor.b'' ''Actor'') \<and>
   ''Actor.a'' \<notin> set (bucket (update (update linkedWorld ''Actor.a'' ''Actor'' alphaText False)
                                 ''Actor.a'' ''Actor'' ''no link'' False) ''Actor.b'' ''Actor'') \<and>
   bucketEntry (update (update linkedWorld ''Actor.a'' ''Actor'' alphaText False)
                  ''Actor.a'' ''Actor'' ''no link'' False) ''Actor.b'' ''Actor'' \<noteq> Some []"
proof -
  have h1: "docs linkedWorld ''Actor.a'' \<noteq> None"
    by (simp add: linkedWorld_def update_live exampleWorld_def)
  have h2: "docs linkedWorld ''Actor.b'' \<noteq> None"
    by (simp add: linkedWorld_def update_live exampleWorld_def)
  have h3: "''Actor.b'' \<in> fullReference ''Actor.a'' ''Actor'' ` set (references alphaText)"
    by code_simp
  have h4: "False \<or> rebuildOnSave linkedWorld" by code_simp
  have h5a: "''Actor.b'' \<in> set (existingReferences linkedWorld ''Actor.a'')" by code_simp
  have h5b: "''Actor.a'' \<in> set (bucket linkedWorld ''Actor.b'' ''Actor'')" by code_simp
  have h6: "''Actor.a'' \<notin> set (remove1 ''Actor.a'' (bucket linkedWorld ''Actor.b'' ''Actor''))"
    by code_simp
  have h7: "''Actor.b'' \<notin> fullReference ''Actor.a'' ''Actor'' ` set (references ''no link'')"
    by code_simp
  from h5b have h5: "''Actor.b'' \<in> set (existingReferences linkedWorld ''Actor.a'') \<longrightarrow>
      ''Actor.a'' \<in> set (bucket linkedWorld ''Actor.b'' ''Actor'')" by simp
  note c = backlink_roundtrip_from_consistent_state [OF h1 h2 h3 h4 h5, of "''no link''" False]
  from c have c1: "''Actor.a'' \<in> set (bucket (update linkedWorld ''Actor.a'' ''Actor'' alphaText False)
                        ''Actor.b'' ''Actor'')" by (rule conjunct1)
  from c h6 h7 h4 have c2:
    "''Actor.a'' \<notin> set (bucket (update (update linkedWorld ''Actor.a'' ''Actor'' alphaText False)
                                 ''Actor.a'' ''Actor'' ''no link'' False) ''Actor.b'' ''Actor'') \<and>
     bucketEntry (update (update linkedWorld ''Actor.a'' ''Actor'' alphaText False)
                  ''Actor.a'' ''Actor'' ''no link'' False) ''Actor.b'' ''Actor'' \<noteq> Some []"
    by simp
  from h1 h2 h3 h4 h5a h5b h6 h7 c1 c2 show ?thesis by simp
qed


subsection \<open>Rendering\<close>

lemma includeValues_answers:
  "\<forall>v \<in> set vs. v \<noteq> [] \<and> docs w v \<noteq> None \<longrightarrow> (\<exists>b. perm v = Inr b) \<Longrightarrow>
     \<exists>shown. includeValues w perm ty vs acc = Inr (acc @ shown) \<and>
       map (\<lambda>i. (item_type i, item_uuid i)) shown =
         map (Pair ty) (filter (\<lambda>v. v \<noteq> [] \<and> docs w v \<noteq> None \<and> perm v = Inr True) vs)"
proof (induction vs arbitrary: acc)
  case Nil
  show ?case by simp
next
  case (Cons v vs)
  then have rest: "\<forall>v \<in> set vs. v \<noteq> [] \<and> docs w v \<noteq> None \<longrightarrow> (\<exists>b. perm v = Inr b)"
    by simp
  show ?case
  proof (cases "v \<noteq> [] \<and> docs w v \<noteq> None \<and> perm v = Inr True")
    case True
    then obtain d where d: "docs w v = Some d" by auto
    define i where "i = \<lparr>item_type = ty, item_uuid = v, item_label = displayName ty d,
        item_icon = iconOf ty\<rparr>"
    from Cons.IH [OF rest, of "acc @ [i]"] obtain shown where
      s: "includeValues w perm ty vs (acc @ [i]) = Inr ((acc @ [i]) @ shown)"
        "map (\<lambda>i. (item_type i, item_uuid i)) shown =
           map (Pair ty) (filter (\<lambda>v. v \<noteq> [] \<and> docs w v \<noteq> None \<and> perm v = Inr True) vs)"
      by (elim exE conjE)
    have "includeValues w perm ty (v # vs) acc = Inr (acc @ (i # shown))"
      using True d s(1) by (simp add: fromUuidSync_def i_def)
    moreover have "map (\<lambda>i. (item_type i, item_uuid i)) (i # shown) =
        map (Pair ty) (filter (\<lambda>v. v \<noteq> [] \<and> docs w v \<noteq> None \<and> perm v = Inr True) (v # vs))"
      using True s(2) by (simp add: i_def)
    ultimately show ?thesis by blast
  next
    case False
    from Cons.IH [OF rest, of acc] obtain shown where
      s: "includeValues w perm ty vs acc = Inr (acc @ shown)"
        "map (\<lambda>i. (item_type i, item_uuid i)) shown =
           map (Pair ty) (filter (\<lambda>v. v \<noteq> [] \<and> docs w v \<noteq> None \<and> perm v = Inr True) vs)"
      by (elim exE conjE)
    have "v \<noteq> [] \<and> docs w v \<noteq> None \<longrightarrow> perm v = Inr False"
      using False Cons.prems by auto
    then have "includeValues w perm ty (v # vs) acc = Inr (acc @ shown)"
      using s(1) by (auto simp: fromUuidSync_def split: option.splits)
    moreover have "map (\<lambda>i. (item_type i, item_uuid i)) shown =
        map (Pair ty) (filter (\<lambda>v. v \<noteq> [] \<and> docs w v \<noteq> None \<and> perm v = Inr True) (v # vs))"
      using False s(2) by simp
    ultimately show ?thesis by blast
  qed
qed

lemma includeValues_throws:
  "\<exists>v \<in> set vs. v \<noteq> [] \<and> docs w v \<noteq> None \<and> (\<exists>e. perm v = Inl e) \<Longrightarrow>
     \<exists>e. includeValues w perm ty vs acc = Inl e"
proof (induction vs arbitrary: acc)
  case Nil
  then show ?case by simp
next
  case (Cons v vs)
  show ?case
  proof (cases "v \<noteq> [] \<and> docs w v \<noteq> None \<and> (\<exists>e. perm v = Inl e)")
    case True
    then show ?thesis by (auto simp: fromUuidSync_def)
  next
    case False
    with Cons.prems have "\<exists>v \<in> set vs. v \<noteq> [] \<and> docs w v \<noteq> None \<and> (\<exists>e. perm v = Inl e)"
      by auto
    from Cons.IH [OF this] show ?thesis
      by (auto simp: fromUuidSync_def split: option.splits sum.splits)
  qed
qed

lemma includeEntries_answers:
  "\<forall>(ty, vs) \<in> set links. \<forall>v \<in> set vs. v \<noteq> [] \<and> docs w v \<noteq> None \<longrightarrow> (\<exists>b. perm v = Inr b) \<Longrightarrow>
     \<exists>shown. includeEntries w perm links acc = Inr (acc @ shown) \<and>
       map (\<lambda>i. (item_type i, item_uuid i)) shown =
         concat (map (\<lambda>(ty, vs).
           map (Pair ty) (filter (\<lambda>v. v \<noteq> [] \<and> docs w v \<noteq> None \<and> perm v = Inr True) vs)) links)"
proof (induction links arbitrary: acc)
  case Nil
  show ?case by simp
next
  case (Cons p links)
  obtain ty vs where p: "p = (ty, vs)" by (cases p)
  from Cons.prems p have
    h: "\<forall>v \<in> set vs. v \<noteq> [] \<and> docs w v \<noteq> None \<longrightarrow> (\<exists>b. perm v = Inr b)" and
    rest: "\<forall>(ty, vs) \<in> set links. \<forall>v \<in> set vs. v \<noteq> [] \<and> docs w v \<noteq> None \<longrightarrow> (\<exists>b. perm v = Inr b)"
    by simp_all
  from includeValues_answers [OF h, of ty acc] obtain s1 where
    s1: "includeValues w perm ty vs acc = Inr (acc @ s1)"
      "map (\<lambda>i. (item_type i, item_uuid i)) s1 =
         map (Pair ty) (filter (\<lambda>v. v \<noteq> [] \<and> docs w v \<noteq> None \<and> perm v = Inr True) vs)"
    by (elim exE conjE)
  from Cons.IH [OF rest, of "acc @ s1"] obtain s2 where
    s2: "includeEntries w perm links (acc @ s1) = Inr ((acc @ s1) @ s2)"
      "map (\<lambda>i. (item_type i, item_uuid i)) s2 =
         concat (map (\<lambda>(ty, vs).
           map (Pair ty) (filter (\<lambda>v. v \<noteq> [] \<and> docs w v \<noteq> None \<and> perm v = Inr True) vs)) links)"
    by (elim exE conjE)
  have "includeEntries w perm (p # links) acc = Inr (acc @ (s1 @ s2))"
    using s1(1) s2(1) by (simp add: p)
  moreover have "map (\<lambda>i. (item_type i, item_uuid i)) (s1 @ s2) =
      concat (map (\<lambda>(ty, vs).
        map (Pair ty) (filter (\<lambda>v. v \<noteq> [] \<and> docs w v \<noteq> None \<and> perm v = Inr True) vs)) (p # links))"
    using s1(2) s2(2) by (simp add: p)
  ultimately show ?case by blast
qed

lemma includeEntries_throws:
  "\<exists>(ty, vs) \<in> set links. \<exists>v \<in> set vs. v \<noteq> [] \<and> docs w v \<noteq> None \<and> (\<exists>e. perm v = Inl e) \<Longrightarrow>
     \<exists>e. includeEntries w perm links acc = Inl e"
proof (induction links arbitrary: acc)
  case Nil
  then show ?case by simp
next
  case (Cons p links)
  obtain ty vs where p: "p = (ty, vs)" by (cases p)
  show ?case
  proof (cases "\<exists>v \<in> set vs. v \<noteq> [] \<and> docs w v \<noteq> None \<and> (\<exists>e. perm v = Inl e)")
    case True
    from includeValues_throws [OF this, of ty acc] show ?thesis
      by (auto simp: p)
  next
    case False
    with Cons.prems p have
      "\<exists>(ty, vs) \<in> set links. \<exists>v \<in> set vs. v \<noteq> [] \<and> docs w v \<noteq> None \<and> (\<exists>e. perm v = Inl e)"
      by auto
    from Cons.IH [OF this] show ?thesis
      by (auto simp: p split: sum.splits)
  qed
qed

text \<open>
  C7, as stated, says that an exception of the permission predicate is taken as a
  denial and that the entry is left out. The routine has no handler around the call:
  with a predicate that throws for the first actor, rendering the backlinks of
  the two actors gives the exception, not the list with the second actor.
\<close>

theorem includeLinksFromRefs_permission_exception_counterexample:
  "includeLinksFromRefs exampleWorld throwingPermission [(''Actor'', [''Actor.a'', ''Actor.b''])]
     = Inl (Thrown ''no ownership data'')"
  by code_simp

text \<open>
  C7, amended. When the permission predicate answers for every referenced entry that
  resolves, the routine renders exactly the entries for which it answers true, in
  order, and the others are left out silently. When the predicate throws for a
  referenced entry that resolves, an exception leaves the routine and nothing is rendered.
\<close>

theorem includeLinksFromRefs_permission:
  "((\<forall>(ty, vs) \<in> set links. \<forall>v \<in> set vs.
       v \<noteq> [] \<and> docs w v \<noteq> None \<longrightarrow> (\<exists>b. perm v = Inr b)) \<longrightarrow>
    (\<exists>shown. includeLinksFromRefs w perm links = Inr shown \<and>
       map (\<lambda>i. (item_type i, item_uuid i)) shown =
         concat (map (\<lambda>(ty, vs).
           map (Pair ty) (filter (\<lambda>v. v \<noteq> [] \<and> docs w v \<noteq> None \<and> perm v = Inr True) vs)) links))) \<and>
   ((\<exists>(ty, vs) \<in> set links'. \<exists>v \<in> set vs.
       v \<noteq> [] \<and> docs w' v \<noteq> None \<and> (\<exists>e. perm' v = Inl e)) \<longrightarrow>
    (\<exists>e. includeLinksFromRefs w' perm' links' = Inl e))"
proof (intro conjI impI)
  assume "\<forall>(ty, vs) \<in> set links. \<forall>v \<in> set vs.
       v \<noteq> [] \<and> docs w v \<noteq> None \<longrightarrow> (\<exists>b. perm v = Inr b)"
  from includeEntries_answers [OF this, of "[]"]
  show "\<exists>shown. includeLinksFromRefs w perm links = Inr shown \<and>
       map (\<lambda>i. (item_type i, item_uuid i)) shown =
         concat (map (\<lambda>(ty, vs).
           map (Pair ty) (filter (\<lambda>v. v \<noteq> [] \<and> docs w v \<noteq> None \<and> perm v = Inr True) vs)) links)"
    by (simp add: includeLinksFromRefs_def)
next
  assume "\<exists>(ty, vs) \<in> set links'. \<exists>v \<in> set vs.
       v \<noteq> [] \<and> docs w' v \<noteq> None \<and> (\<exists>e. perm' v = Inl e)"
  from includeEntries_throws [OF this, of "[]"]
  show "\<exists>e. includeLinksFromRefs w' perm' links' = Inl e"
    by (simp add: includeLinksFromRefs_def)
qed

theorem includeLinksFromRefs_permission_witness:
  "(\<exists>shown. includeLinksFromRefs exampleWorld (\<lambda>v. Inr (v = ''Actor.b''))
        [(''Actor'', [''Actor.a'', ''Actor.gone'', ''Actor.b''])] = Inr shown \<and>
      map (\<lambda>i. (item_type i, item_uuid i)) shown = [(''Actor'', ''Actor.b'')]) \<and>
   docs exampleWorld ''Actor.a'' \<noteq> None \<and>
   throwingPermission ''Actor.a'' = Inl (Thrown ''no ownership data'') \<and>
   (\<exists>e. includeLinksFromRefs exampleWorld throwingPermission
           [(''Actor'', [''Actor.a'', ''Actor.b''])] = Inl e)"
proof -
  have h1: "\<forall>(ty, vs) \<in> set [(''Actor'', [''Actor.a'', ''Actor.gone'', ''Actor.b''])]. \<forall>v \<in> set vs.
       v \<noteq> [] \<and> docs exampleWorld v \<noteq> None \<longrightarrow> (\<exists>b. (\<lambda>v. Inr (v = ''Actor.b'')) v = Inr b)"
    by simp
  have l: "docs exampleWorld ''Actor.a'' \<noteq> None" by (simp add: exampleWorld_def)
  have t: "throwingPermission ''Actor.a'' = Inl (Thrown ''no ownership data'')"
    by (simp add: throwingPermission_def)
  have h2: "\<exists>(ty, vs) \<in> set [(''Actor'', [''Actor.a'', ''Actor.b''])]. \<exists>v \<in> set vs.
       v \<noteq> [] \<and> docs exampleWorld v \<noteq> None \<and> (\<exists>e. throwingPermission v = Inl e)"
    using l t by simp
  note c = includeLinksFromRefs_permission
    [of "[(''Actor'', [''Actor.a'', ''Actor.gone'', ''Actor.b''])]" exampleWorld
        "\<lambda>v. Inr (v = ''Actor.b'')" "[(''Actor'', [''Actor.a'', ''Actor.b''])]" exampleWorld
        throwingPermission]
  from c h1 have c1: "\<exists>shown. includeLinksFromRefs exampleWorld (\<lambda>v. Inr (v = ''Actor.b''))
        [(''Actor'', [''Actor.a'', ''Actor.gone'', ''Actor.b''])] = Inr shown \<and>
      map (\<lambda>i. (item_type i, item_uuid i)) shown = [(''Actor'', ''Actor.b'')]"
    by (simp add: exampleWorld_def)
  from c h2 have c2: "\<exists>e. includeLinksFromRefs exampleWorld throwingPermission
           [(''Actor'', [''Actor.a'', ''Actor.b''])] = Inl e"
    by blast
  from c1 l t c2 show ?thesis by blast
qed


subsection \<open>The console\<close>

lemma settingsOf_eqD:
  assumes "settingsOf p = settingsOf q"
  shows "debugSetting p = debugSetting q" "rebuildOnSave p = rebuildOnSave q"
    "getAllDocuments p = getAllDocuments q"
  using assms by (simp_all add: settingsOf_def getAllDocuments_def)

lemma getContent_staticOf:
  "getContent w e = (case staticOf w e of None \<Rightarrow> [] | Some (n, p, c) \<Rightarrow> c)"
  by (simp add: getContent_def staticOf_def split: option.splits)

lemma references_Nil [simp]: "references [] = []"
  by (simp add: references_def)

lemma debug_console:
  "console (debug text w) =
     (if debugSetting w then console w @ [MODULE_ID @ '' | journal-backlinks | DEBUG | '' @ text]
      else console w)"
  by (simp add: debug_def log_text_def)

lemma addLink_console:
  "console (addLink e t r w) =
     (if debugSetting w \<and> docs w r = None then console w @ [unresolvedDiagnostic r] else console w)"
  by (simp add: addLink_def Let_def debug_console unresolvedDiagnostic_def split: option.splits)

lemma removeLink_console_quiet: "\<not> debugSetting w \<Longrightarrow> console (removeLink e t r w) = console w"
  by (simp add: removeLink_def debug_console split: option.splits)

lemma removeLink_console_mono: "set (console w) \<subseteq> set (console (removeLink e t r w))"
  by (auto simp: removeLink_def debug_console split: option.splits)

lemma addReferences_console_quiet:
  "\<not> debugSetting w \<Longrightarrow> console (snd (addReferences e t ex refs (upd, w))) = console w"
proof (induction refs arbitrary: upd w)
  case Nil
  show ?case by simp
next
  case (Cons r refs)
  have "debugSetting (addLink e t (fullReference e t r) w) = debugSetting w"
    by (rule settingsOf_eqD) simp
  with Cons.prems have "\<not> debugSetting (addLink e t (fullReference e t r) w)" by simp
  from Cons.IH [OF this] Cons.IH [OF Cons.prems] Cons.prems show ?case
    by (simp add: addReferences_Cons Let_def addLink_console)
qed

lemma addReferences_console_mono:
  "set (console w) \<subseteq> set (console (snd (addReferences e t ex refs (upd, w))))"
proof (induction refs arbitrary: upd w)
  case Nil
  show ?case by simp
next
  case (Cons r refs)
  have "set (console w) \<subseteq> set (console (addLink e t (fullReference e t r) w))"
    by (auto simp: addLink_console)
  also have "\<dots> \<subseteq> set (console (snd (addReferences e t ex refs
      (upd @ [fullReference e t r], addLink e t (fullReference e t r) w))))"
    by (rule Cons.IH)
  finally show ?case
    using Cons.IH by (simp add: addReferences_Cons Let_def)
qed

lemma addReferences_diagnostic:
  "r \<in> fullReference e t ` set refs \<Longrightarrow> r \<notin> set upd \<Longrightarrow> r \<notin> set ex \<Longrightarrow> docs w r = None
     \<Longrightarrow> debugSetting w
     \<Longrightarrow> unresolvedDiagnostic r \<in> set (console (snd (addReferences e t ex refs (upd, w))))"
proof (induction refs arbitrary: upd w)
  case Nil
  then show ?case by simp
next
  case (Cons a refs)
  define x where "x = fullReference e t a"
  show ?case
  proof (cases "x = r")
    case True
    have "unresolvedDiagnostic r \<in> set (console (addLink e t r w))"
      using Cons.prems by (simp add: addLink_console)
    then have "unresolvedDiagnostic r \<in>
        set (console (snd (addReferences e t ex refs (upd @ [r], addLink e t r w))))"
      using addReferences_console_mono by blast
    then show ?thesis using Cons.prems True by (simp add: addReferences_Cons x_def [symmetric])
  next
    case False
    then have r: "r \<in> fullReference e t ` set refs" using Cons.prems by (auto simp: x_def)
    have n: "r \<notin> set (upd @ [x])" using False Cons.prems by simp
    have l: "docs (addLink e t x w) r = None" using Cons.prems by simp
    have "debugSetting (addLink e t x w) = debugSetting w"
      by (rule settingsOf_eqD) simp
    then have d: "debugSetting (addLink e t x w)" using Cons.prems by simp
    show ?thesis
      using Cons.IH [OF r Cons.prems(2) Cons.prems(3) Cons.prems(4) Cons.prems(5)]
        Cons.IH [OF r n Cons.prems(3) Cons.prems(4) Cons.prems(5)]
        Cons.IH [OF r n Cons.prems(3) l d]
      by (simp add: addReferences_Cons x_def [symmetric] Let_def)
  qed
qed

lemma removeOutdated_console_quiet:
  "\<not> debugSetting w \<Longrightarrow> console (removeOutdated e t out w) = console w"
proof (induction out arbitrary: w)
  case Nil
  show ?case by simp
next
  case (Cons r out)
  have "debugSetting (removeLink e t r w) = debugSetting w"
    by (rule settingsOf_eqD) simp
  with Cons.prems have "\<not> debugSetting (removeLink e t r w)" by simp
  from Cons.IH [OF this] Cons.prems show ?case
    by (simp add: removeOutdated_Cons removeLink_console_quiet)
qed

lemma removeOutdated_console_mono:
  "set (console w) \<subseteq> set (console (removeOutdated e t out w))"
proof (induction out arbitrary: w)
  case Nil
  show ?case by simp
next
  case (Cons r out)
  have "set (console w) \<subseteq> set (console (removeLink e t r w))"
    by (rule removeLink_console_mono)
  also have "\<dots> \<subseteq> set (console (removeOutdated e t out (removeLink e t r w)))"
    by (rule Cons.IH)
  finally show ?case by (simp add: removeOutdated_Cons)
qed

lemma update_console_quiet:
  assumes "\<not> debugSetting w"
  shows "console (update w e t c f) = console w"
proof (cases "f \<or> rebuildOnSave w")
  case False
  then show ?thesis by (simp add: update_def)
next
  case True
  obtain upd w1 where
    a: "addReferences e t (existingReferences w e) (references c) ([], w) = (upd, w1)" and
    u: "update w e t c f =
       setFlag_references
         (removeOutdated e t (filter (\<lambda>v. v \<notin> set upd) (existingReferences w e)) w1) e upd" and
    "distinct upd" and "set upd = fullReference e t ` set (references c)"
    by (rule update_unfold [OF True, of e t c])
  have w1: "w1 = snd (addReferences e t (existingReferences w e) (references c) ([], w))"
    using a by simp
  have c1: "console w1 = console w"
    unfolding w1 using assms by (rule addReferences_console_quiet)
  have "settingsOf w1 = settingsOf w"
    unfolding w1 using addReferences_frame [of e t "existingReferences w e" "references c" "[]" w]
    by simp
  then have "\<not> debugSetting w1" using assms settingsOf_eqD(1) by blast
  then show ?thesis by (simp add: u removeOutdated_console_quiet c1)
qed

lemma update_console_mono: "set (console w) \<subseteq> set (console (update w e t c f))"
proof (cases "f \<or> rebuildOnSave w")
  case False
  then show ?thesis by (simp add: update_def)
next
  case True
  obtain upd w1 where
    a: "addReferences e t (existingReferences w e) (references c) ([], w) = (upd, w1)" and
    u: "update w e t c f =
       setFlag_references
         (removeOutdated e t (filter (\<lambda>v. v \<notin> set upd) (existingReferences w e)) w1) e upd" and
    "distinct upd" and "set upd = fullReference e t ` set (references c)"
    by (rule update_unfold [OF True, of e t c])
  have w1: "w1 = snd (addReferences e t (existingReferences w e) (references c) ([], w))"
    using a by simp
  have "set (console w) \<subseteq> set (console w1)"
    unfolding w1 by (rule addReferences_console_mono)
  also have "\<dots> \<subseteq> set (console
      (removeOutdated e t (filter (\<lambda>v. v \<notin> set upd) (existingReferences w e)) w1))"
    by (rule removeOutdated_console_mono)
  finally show ?thesis by (simp add: u)
qed

lemma update_diagnostic:
  assumes link: "r \<in> fullReference e t ` set (references c)"
    and new: "r \<notin> set (existingReferences w e)"
    and unres: "docs w r = None" and dbg: "debugSetting w" and run: "f \<or> rebuildOnSave w"
  shows "unresolvedDiagnostic r \<in> set (console (update w e t c f))"
proof -
  obtain upd w1 where
    a: "addReferences e t (existingReferences w e) (references c) ([], w) = (upd, w1)" and
    u: "update w e t c f =
       setFlag_references
         (removeOutdated e t (filter (\<lambda>v. v \<notin> set upd) (existingReferences w e)) w1) e upd" and
    "distinct upd" and "set upd = fullReference e t ` set (references c)"
    by (rule update_unfold [OF run, of e t c])
  have w1: "w1 = snd (addReferences e t (existingReferences w e) (references c) ([], w))"
    using a by simp
  have "unresolvedDiagnostic r \<in> set (console w1)"
    unfolding w1 by (rule addReferences_diagnostic [OF link _ new unres dbg]) simp
  moreover have "set (console w1) \<subseteq> set (console
      (removeOutdated e t (filter (\<lambda>v. v \<notin> set upd) (existingReferences w e)) w1))"
    by (rule removeOutdated_console_mono)
  ultimately show ?thesis unfolding u by auto
qed

subsection \<open>The full rebuild\<close>

lemma wipeReferences_frame [simp]:
  "settingsOf (wipeReferences e w) = settingsOf w"
  "console (wipeReferences e w) = console w"
  "staticOf (wipeReferences e w) = staticOf w"
  "byOf (wipeReferences e w) = byOf w"
  by (simp_all add: wipeReferences_def split: option.splits)

lemma refsOf_wipeReferences:
  "refsOf (wipeReferences e w) u =
     (if u = e then map_option (\<lambda>_. None) (refsOf w e) else refsOf w u)"
proof (cases "docs w e")
  case None
  then show ?thesis by (simp add: wipeReferences_def refsOf_def)
next
  case (Some d)
  show ?thesis
  proof (cases "flag_references d")
    case None
    with Some show ?thesis by (simp add: wipeReferences_def refsOf_def)
  next
    case (Some l)
    with \<open>docs w e = Some d\<close> have "wipeReferences e w = unsetFlag_references w e"
      by (simp add: wipeReferences_def)
    moreover have "refsOf w e = Some (Some l)"
      using Some \<open>docs w e = Some d\<close> by (simp add: refsOf_def)
    ultimately show ?thesis
      using \<open>docs w e = Some d\<close> by (simp add: refsOf_unsetFlag_references)
  qed
qed

lemma existingReferences_wipeReferences [simp]:
  "existingReferences (wipeReferences e w) e = []"
  by (simp add: existingReferences_refsOf refsOf_wipeReferences split: option.splits)

lemma wipeReferences_live [simp]: "(docs (wipeReferences e w) u = None) = (docs w u = None)"
  by (simp add: live_static)

lemma rebuildReferences_Cons:
  "rebuildReferences ((e, t) # rest) w = rebuildReferences rest (rebuildOne e t w)"
  by (simp add: rebuildOne_def wipeReferences_def Let_def split: option.splits)

declare rebuildReferences.simps(2) [simp del]

lemma rebuildOne_frame [simp]:
  "settingsOf (rebuildOne e t w) = settingsOf w"
  "staticOf (rebuildOne e t w) = staticOf w"
  by (simp_all add: rebuildOne_def Let_def update_settings update_static)

lemma rebuildOne_live [simp]: "(docs (rebuildOne e t w) u = None) = (docs w u = None)"
  by (simp add: live_static)

lemma update_refs_other: "u \<noteq> e \<Longrightarrow> refsOf (update w e t c f) u = refsOf w u"
proof (cases "f \<or> rebuildOnSave w")
  case False
  then show ?thesis by (simp add: update_def)
next
  case True
  assume ne: "u \<noteq> e"
  obtain upd w1 where
    a: "addReferences e t (existingReferences w e) (references c) ([], w) = (upd, w1)" and
    u: "update w e t c f =
       setFlag_references
         (removeOutdated e t (filter (\<lambda>v. v \<notin> set upd) (existingReferences w e)) w1) e upd" and
    "distinct upd" and "set upd = fullReference e t ` set (references c)"
    by (rule update_unfold [OF True, of e t c])
  have "refsOf w1 = refsOf w"
    using addReferences_frame [of e t "existingReferences w e" "references c" "[]" w] a by simp
  then show ?thesis
    using ne by (simp add: u refsOf_setFlag_references removeOutdated_frame)
qed

lemma rebuildOne_refs_other: "u \<noteq> e \<Longrightarrow> refsOf (rebuildOne e t w) u = refsOf w u"
  by (simp add: rebuildOne_def Let_def update_refs_other refsOf_wipeReferences)

lemma rebuildOne_refs:
  assumes "docs w e \<noteq> None" "getContent w e \<noteq> []"
  shows "\<exists>upd. refsOf (rebuildOne e t w) e = Some (Some upd) \<and>
           set upd = fullReference e t ` set (references (getContent w e))"
proof -
  define w1 where "w1 = wipeReferences e w"
  have c: "getContent w1 e = getContent w e" by (simp add: w1_def getContent_staticOf)
  have l: "docs w1 e \<noteq> None" using assms by (simp add: w1_def)
  have "rebuildOne e t w = update w1 e t (getContent w e) True"
    using assms by (simp add: rebuildOne_def Let_def w1_def [symmetric] c)
  moreover from update_references_flag [OF l disjI1 [OF TrueI], of t "getContent w e"]
  obtain upd where "refsOf (update w1 e t (getContent w e) True) e = Some (Some upd)"
    "distinct upd" "set upd = fullReference e t ` set (references (getContent w e))"
    by (elim exE conjE)
  ultimately show ?thesis by auto
qed

lemma rebuildOne_console_quiet: "\<not> debugSetting w \<Longrightarrow> console (rebuildOne e t w) = console w"
proof -
  assume q: "\<not> debugSetting w"
  have "debugSetting (wipeReferences e w) = debugSetting w"
    by (rule settingsOf_eqD) simp
  with q have "\<not> debugSetting (wipeReferences e w)" by simp
  then show ?thesis
    by (simp add: rebuildOne_def Let_def update_console_quiet)
qed

lemma rebuildOne_console_mono: "set (console w) \<subseteq> set (console (rebuildOne e t w))"
  using update_console_mono [of "wipeReferences e w" e t "getContent (wipeReferences e w) e" True]
  by (simp add: rebuildOne_def Let_def)

lemma rebuildOne_diagnostic:
  assumes link: "r \<in> fullReference e t ` set (references (getContent w e))"
    and unres: "docs w r = None" and dbg: "debugSetting w"
  shows "unresolvedDiagnostic r \<in> set (console (rebuildOne e t w))"
proof -
  define w1 where "w1 = wipeReferences e w"
  have c: "getContent w1 e = getContent w e" by (simp add: w1_def getContent_staticOf)
  from link have ne: "getContent w e \<noteq> []" by auto
  have r: "rebuildOne e t w = update w1 e t (getContent w e) True"
    using ne by (simp add: rebuildOne_def Let_def w1_def [symmetric] c)
  have "debugSetting w1 = debugSetting w"
    unfolding w1_def by (rule settingsOf_eqD) simp
  then have d: "debugSetting w1" using dbg by simp
  have u: "docs w1 r = None" using unres by (simp add: w1_def)
  have n: "r \<notin> set (existingReferences w1 e)" by (simp add: w1_def)
  show ?thesis
    unfolding r by (rule update_diagnostic [OF link n u d]) simp
qed

lemma rebuildReferences_frame:
  "settingsOf (rebuildReferences L w) = settingsOf w \<and>
   staticOf (rebuildReferences L w) = staticOf w"
proof (induction L arbitrary: w)
  case Nil
  show ?case by simp
next
  case (Cons p L)
  obtain e t where p: "p = (e, t)" by (cases p)
  show ?case by (simp add: p rebuildReferences_Cons Cons.IH)
qed

lemma rebuildReferences_append:
  "rebuildReferences (L1 @ L2) w = rebuildReferences L2 (rebuildReferences L1 w)"
proof (induction L1 arbitrary: w)
  case Nil
  show ?case by simp
next
  case (Cons p L)
  obtain e t where p: "p = (e, t)" by (cases p)
  show ?case by (simp add: p rebuildReferences_Cons Cons.IH)
qed

lemma rebuildReferences_refs_other:
  "u \<notin> fst ` set L \<Longrightarrow> refsOf (rebuildReferences L w) u = refsOf w u"
proof (induction L arbitrary: w)
  case Nil
  show ?case by simp
next
  case (Cons p L)
  obtain e t where p: "p = (e, t)" by (cases p)
  from Cons.prems p have "u \<noteq> e" "u \<notin> fst ` set L" by auto
  then show ?case by (simp add: p rebuildReferences_Cons Cons.IH rebuildOne_refs_other)
qed

lemma rebuildReferences_console_quiet:
  "\<not> debugSetting w \<Longrightarrow> console (rebuildReferences L w) = console w"
proof (induction L arbitrary: w)
  case Nil
  show ?case by simp
next
  case (Cons p L)
  obtain e t where p: "p = (e, t)" by (cases p)
  have "debugSetting (rebuildOne e t w) = debugSetting w"
    by (rule settingsOf_eqD) simp
  with Cons.prems have "\<not> debugSetting (rebuildOne e t w)" by simp
  from Cons.IH [OF this] Cons.prems show ?case
    by (simp add: p rebuildReferences_Cons rebuildOne_console_quiet)
qed

lemma rebuildReferences_console_mono:
  "set (console w) \<subseteq> set (console (rebuildReferences L w))"
proof (induction L arbitrary: w)
  case Nil
  show ?case by simp
next
  case (Cons p L)
  obtain e t where p: "p = (e, t)" by (cases p)
  have "set (console w) \<subseteq> set (console (rebuildOne e t w))"
    by (rule rebuildOne_console_mono)
  also have "\<dots> \<subseteq> set (console (rebuildReferences L (rebuildOne e t w)))"
    by (rule Cons.IH)
  finally show ?case by (simp add: p rebuildReferences_Cons)
qed

lemma wipeReferencedBy_frame:
  "settingsOf (wipeReferencedBy L w) = settingsOf w \<and>
   console (wipeReferencedBy L w) = console w \<and>
   staticOf (wipeReferencedBy L w) = staticOf w \<and>
   refsOf (wipeReferencedBy L w) = refsOf w"
proof (induction L arbitrary: w)
  case Nil
  show ?case by simp
next
  case (Cons p L)
  obtain e t where p: "p = (e, t)" by (cases p)
  show ?case by (simp add: p Cons.IH split: option.splits)
qed

lemma wipeReferencedBy_by:
  "byOf (wipeReferencedBy L w) u =
     (if u \<in> fst ` set L then map_option (\<lambda>_. None) (byOf w u) else byOf w u)"
proof (induction L arbitrary: w)
  case Nil
  show ?case by simp
next
  case (Cons p L)
  obtain e t where p: "p = (e, t)" by (cases p)
  define w' where "w' = (case docs w e of None \<Rightarrow> w
      | Some d \<Rightarrow> if flag_referencedBy d \<noteq> None then unsetFlag_referencedBy w e else w)"
  have step: "wipeReferencedBy (p # L) w = wipeReferencedBy L w'"
    by (simp add: p w'_def split: option.splits)
  have one: "byOf w' x = (if x = e then map_option (\<lambda>_. None) (byOf w e) else byOf w x)" for x
  proof (cases "docs w e")
    case None
    then show ?thesis by (simp add: w'_def byOf_def)
  next
    case (Some d)
    show ?thesis
    proof (cases "flag_referencedBy d")
      case None
      with Some show ?thesis by (simp add: w'_def byOf_def)
    next
      case (Some l)
      with \<open>docs w e = Some d\<close> have "w' = unsetFlag_referencedBy w e"
        by (simp add: w'_def)
      moreover have "byOf w e = Some (Some l)"
        using Some \<open>docs w e = Some d\<close> by (simp add: byOf_def)
      ultimately show ?thesis
        using \<open>docs w e = Some d\<close> by (simp add: byOf_unsetFlag_referencedBy)
    qed
  qed
  show ?case
    unfolding step by (auto simp: Cons.IH one p option.map_comp comp_def)
qed

lemma sync_frame:
  "settingsOf (sync w) = settingsOf w" "staticOf (sync w) = staticOf w"
  by (simp_all add: sync_def Let_def rebuildReferences_frame wipeReferencedBy_frame)

lemma sync_live: "(docs (sync w) u = None) = (docs w u = None)"
  by (simp add: live_static sync_frame)

lemma sync_console_quiet: "\<not> debugSetting w \<Longrightarrow> console (sync w) = console w"
proof -
  assume q: "\<not> debugSetting w"
  have "debugSetting (wipeReferencedBy (getAllDocuments w) w) = debugSetting w"
    by (rule settingsOf_eqD) (simp add: wipeReferencedBy_frame)
  with q have "\<not> debugSetting (wipeReferencedBy (getAllDocuments w) w)" by simp
  then show ?thesis
    by (simp add: sync_def Let_def rebuildReferences_console_quiet wipeReferencedBy_frame)
qed

lemma sync_at_document:
  assumes doc: "(A, T) \<in> set (getAllDocuments w)"
    and dist: "distinct (map fst (getAllDocuments w))"
  obtains w1 L2 where "sync w = rebuildReferences L2 (rebuildOne A T w1)"
    "A \<notin> fst ` set L2" "settingsOf w1 = settingsOf w" "staticOf w1 = staticOf w"
proof -
  from doc obtain L1 L2 where L: "getAllDocuments w = L1 @ (A, T) # L2"
    by (auto dest: split_list)
  with dist have n: "A \<notin> fst ` set L2" by auto
  define w1 where "w1 = rebuildReferences L1 (wipeReferencedBy (getAllDocuments w) w)"
  have "sync w = rebuildReferences L2 (rebuildOne A T w1)"
    by (simp add: sync_def Let_def L rebuildReferences_append rebuildReferences_Cons w1_def)
  moreover have "settingsOf w1 = settingsOf w" "staticOf w1 = staticOf w"
    by (simp_all add: w1_def rebuildReferences_frame wipeReferencedBy_frame)
  ultimately show ?thesis using that n by blast
qed

text \<open>
  C6, as stated, says that the target that does not resolve is skipped with a logged
  diagnostic and is left out of the rebuilt graph. After the full rebuild of the example
  world, whose first actor links to an actor that does not exist, the \<open>references\<close> flag
  of the first actor lists that UUID, and the console has no line (debugging is off).
\<close>

theorem sync_unresolved_target_counterexample:
  "docs exampleWorld ''Actor.gone'' = None \<and>
   ''Actor.gone'' \<in> set (references alphaText) \<and>
   existingReferences (sync exampleWorld) ''Actor.a'' = [''Actor.b'', ''Actor.gone''] \<and>
   console (sync exampleWorld) = []"
  by code_simp

text \<open>
  C6, amended. Let a document of the world link to a UUID that does not resolve. The
  full rebuild and the update return (both are total functions: a lookup that fails is
  a case of the code, and it goes on with the next reference), and the store has no
  document for the UUID afterwards, hence no incoming edge for it. The UUID is still
  listed in the \<open>references\<close> flag of the linking document after the rebuild. The
  diagnostic is printed when the debug setting is on; when it is off the console is
  unchanged.
\<close>

theorem sync_and_update_tolerate_unresolved_target:
  assumes doc: "(A, T) \<in> set (getAllDocuments w)"
    and dist: "distinct (map fst (getAllDocuments w))"
    and live: "docs w A = Some d"
    and link: "r \<in> fullReference A T ` set (references (doc_content d))"
    and unres: "docs w r = None"
  shows "docs (sync w) r = None \<and> r \<in> set (existingReferences (sync w) A) \<and>
         (if debugSetting w then unresolvedDiagnostic r \<in> set (console (sync w))
          else console (sync w) = console w) \<and>
         docs (update w A T (doc_content d) force) r = None \<and>
         (if debugSetting w then set (console w) \<subseteq> set (console (update w A T (doc_content d) force))
          else console (update w A T (doc_content d) force) = console w)"
proof -
  obtain w1 L2 where s: "sync w = rebuildReferences L2 (rebuildOne A T w1)"
    and n: "A \<notin> fst ` set L2" and se: "settingsOf w1 = settingsOf w"
    and st: "staticOf w1 = staticOf w"
    by (rule sync_at_document [OF doc dist])
  have sA: "staticOf w A = Some (doc_name d, doc_parentName d, doc_content d)"
    using live by (simp add: staticOf_def)
  then have c: "getContent w1 A = doc_content d"
    by (simp add: getContent_staticOf st)
  have l1: "docs w1 A \<noteq> None" using sA by (simp add: live_static st)
  have u1: "docs w1 r = None" using unres by (simp add: live_static st)
  from link have ne: "getContent w1 A \<noteq> []" by (auto simp: c)
  from rebuildOne_refs [OF l1 ne, of T] obtain upd where
    "refsOf (rebuildOne A T w1) A = Some (Some upd)"
    "set upd = fullReference A T ` set (references (getContent w1 A))"
    by (elim exE conjE)
  moreover have "refsOf (sync w) A = refsOf (rebuildOne A T w1) A"
    unfolding s using n by (rule rebuildReferences_refs_other)
  ultimately have retained: "r \<in> set (existingReferences (sync w) A)"
    using link by (simp add: existingReferences_refsOf c)
  have dbg: "debugSetting w1 = debugSetting w" using se by (rule settingsOf_eqD)
  have diag: "unresolvedDiagnostic r \<in> set (console (sync w))" if "debugSetting w"
  proof -
    from that dbg have d1: "debugSetting w1" by simp
    have "unresolvedDiagnostic r \<in> set (console (rebuildOne A T w1))"
      by (rule rebuildOne_diagnostic [OF _ u1 d1]) (simp add: c link)
    then show ?thesis
      unfolding s using rebuildReferences_console_mono by blast
  qed
  show ?thesis
    using unres retained diag
    by (simp add: sync_live update_live sync_console_quiet update_console_quiet
        update_console_mono)
qed

theorem sync_and_update_tolerate_unresolved_target_witness:
  "(''Actor.a'', ''Actor'') \<in> set (getAllDocuments exampleWorld) \<and>
   distinct (map fst (getAllDocuments exampleWorld)) \<and>
   docs exampleWorld ''Actor.a'' = Some (plainDocument ''Alpha'' alphaText) \<and>
   ''Actor.gone'' \<in> fullReference ''Actor.a'' ''Actor'' ` set (references alphaText) \<and>
   docs exampleWorld ''Actor.gone'' = None \<and>
   docs (sync exampleWorld) ''Actor.gone'' = None \<and>
   ''Actor.gone'' \<in> set (existingReferences (sync exampleWorld) ''Actor.a'') \<and>
   console (sync exampleWorld) = console exampleWorld \<and>
   docs (update exampleWorld ''Actor.a'' ''Actor'' alphaText False) ''Actor.gone'' = None \<and>
   unresolvedDiagnostic ''Actor.gone''
     \<in> set (console (sync (exampleWorld\<lparr>debugSetting := True\<rparr>)))"
proof -
  define dw where "dw = exampleWorld\<lparr>debugSetting := True\<rparr>"
  have h1: "(''Actor.a'', ''Actor'') \<in> set (getAllDocuments exampleWorld)"
    by (simp add: getAllDocuments_def exampleWorld_def)
  have h2: "distinct (map fst (getAllDocuments exampleWorld))"
    by (simp add: getAllDocuments_def exampleWorld_def)
  have h3: "docs exampleWorld ''Actor.a'' = Some (plainDocument ''Alpha'' alphaText)"
    by (simp add: exampleWorld_def)
  have h4: "''Actor.gone'' \<in> fullReference ''Actor.a'' ''Actor'' ` set (references alphaText)"
    by code_simp
  have h5: "docs exampleWorld ''Actor.gone'' = None"
    by (simp add: exampleWorld_def)
  have c: "doc_content (plainDocument ''Alpha'' alphaText) = alphaText"
    by (simp add: plainDocument_def)
  have q: "\<not> debugSetting exampleWorld" by (simp add: exampleWorld_def)
  have g1: "(''Actor.a'', ''Actor'') \<in> set (getAllDocuments dw)"
    by (simp add: getAllDocuments_def exampleWorld_def dw_def)
  have g2: "distinct (map fst (getAllDocuments dw))"
    by (simp add: getAllDocuments_def exampleWorld_def dw_def)
  have g3: "docs dw ''Actor.a'' = Some (plainDocument ''Alpha'' alphaText)"
    by (simp add: exampleWorld_def dw_def)
  have g5: "docs dw ''Actor.gone'' = None"
    by (simp add: exampleWorld_def dw_def)
  have d: "debugSetting dw" by (simp add: dw_def)
  from sync_and_update_tolerate_unresolved_target
    [OF h1 h2 h3, of "''Actor.gone''" False] h4 h5 q
  have r1: "docs (sync exampleWorld) ''Actor.gone'' = None"
    "''Actor.gone'' \<in> set (existingReferences (sync exampleWorld) ''Actor.a'')"
    "console (sync exampleWorld) = console exampleWorld"
    "docs (update exampleWorld ''Actor.a'' ''Actor'' alphaText False) ''Actor.gone'' = None"
    by (simp_all add: c)
  from sync_and_update_tolerate_unresolved_target
    [OF g1 g2 g3, of "''Actor.gone''" False] h4 g5 d
  have r2: "unresolvedDiagnostic ''Actor.gone'' \<in> set (console (sync dw))"
    by (simp add: c)
  from h1 h2 h3 h4 h5 r1 r2 show ?thesis by (simp add: dw_def)
qed

subsection \<open>Idempotence\<close>

lemma addReferences_fst:
  "fst (addReferences e t ex refs (upd, w)) = collectReferences e t refs upd"
proof (induction refs arbitrary: upd w)
  case Nil
  show ?case by simp
next
  case (Cons r refs)
  show ?case by (simp add: addReferences_Cons Let_def Cons.IH)
qed

lemma setFlag_references_same:
  "refsOf w e = Some (Some l) \<Longrightarrow> docs (setFlag_references w e l) = docs w"
  by (auto simp: setFlag_references_def refsOf_def fun_eq_iff split: option.splits)

lemma setFlag_references_dead: "docs w e = None \<Longrightarrow> setFlag_references w e l = w"
  by (simp add: setFlag_references_def)

lemma update_run:
  assumes "f \<or> rebuildOnSave w"
  shows "update w e t c f =
     setFlag_references
       (removeOutdated e t
          (filter (\<lambda>v. v \<notin> set (collectReferences e t (references c) []))
             (existingReferences w e))
          (snd (addReferences e t (existingReferences w e) (references c) ([], w))))
       e (collectReferences e t (references c) [])"
proof -
  obtain upd w1 where
    a: "addReferences e t (existingReferences w e) (references c) ([], w) = (upd, w1)"
    by (cases "addReferences e t (existingReferences w e) (references c) ([], w)")
  have "upd = collectReferences e t (references c) []"
    using addReferences_fst [of e t "existingReferences w e" "references c" "[]" w] a by simp
  then show ?thesis using assms a by (auto simp: update_def Let_def)
qed

lemma update_refs_at:
  assumes "f \<or> rebuildOnSave w"
  shows "refsOf (update w e t c f) e =
     (if docs w e = None then None else Some (Some (collectReferences e t (references c) [])))"
proof -
  define w2 where "w2 = removeOutdated e t
          (filter (\<lambda>v. v \<notin> set (collectReferences e t (references c) []))
             (existingReferences w e))
          (snd (addReferences e t (existingReferences w e) (references c) ([], w)))"
  have "staticOf w2 = staticOf w"
    by (simp add: w2_def removeOutdated_frame addReferences_frame)
  then have l: "(docs w2 e = None) = (docs w e = None)" by (rule static_live_eq)
  have "update w e t c f = setFlag_references w2 e (collectReferences e t (references c) [])"
    unfolding w2_def by (rule update_run [OF assms])
  then show ?thesis
    using l by (auto simp: refsOf_setFlag_references) (simp add: refsOf_def)
qed

lemma collectReferences_set:
  "set (collectReferences e t refs upd) = set upd \<union> fullReference e t ` set refs"
  by (induction refs arbitrary: upd) auto

lemma update_idempotent: "docs (update (update w e t c f) e t c f) = docs (update w e t c f)"
proof (cases "f \<or> rebuildOnSave w")
  case False
  then show ?thesis by (simp add: update_def)
next
  case True
  define w' where "w' = update w e t c f"
  define upd where "upd = collectReferences e t (references c) []"
  have "settingsOf w' = settingsOf w" by (simp add: w'_def update_settings)
  then have "rebuildOnSave w' = rebuildOnSave w" by (rule settingsOf_eqD)
  with True have run': "f \<or> rebuildOnSave w'" by simp
  have live: "(docs w' u = None) = (docs w u = None)" for u by (simp add: w'_def update_live)
  have refs': "refsOf w' e = (if docs w e = None then None else Some (Some upd))"
    unfolding w'_def upd_def by (rule update_refs_at [OF True])
  have ex': "existingReferences w' e = (if docs w e = None then [] else upd)"
    by (simp add: existingReferences_refsOf refs')
  have noop: "\<forall>r \<in> fullReference e t ` set (references c).
      r \<in> set [] \<or> r \<in> set (existingReferences w' e) \<or> docs w' r = None
        \<or> e \<in> set (bucket w' r t)"
  proof (cases "docs w e = None")
    case False
    then have "existingReferences w' e = upd" unfolding ex' by (rule if_not_P)
    then have "set (existingReferences w' e) = fullReference e t ` set (references c)"
      by (simp add: upd_def collectReferences_set)
    then show ?thesis by blast
  next
    case dead: True
    then have ex: "existingReferences w e = []" by (simp add: existingReferences_def)
    define w1 where "w1 = snd (addReferences e t [] (references c) ([], w))"
    have "staticOf w1 = staticOf w" by (simp add: w1_def addReferences_frame)
    then have "docs w1 e = None" using dead by (simp add: live_static)
    then have eq: "w' = w1"
      unfolding w'_def using update_run [OF True, of e t c]
      by (simp add: ex w1_def [symmetric] setFlag_references_dead)
    have m: "e \<in> set (bucket w1 r t)"
      if "r \<in> fullReference e t ` set (references c)" "docs w r \<noteq> None" for r
      unfolding w1_def by (rule addReferences_member [OF that(1) _ _ that(2)]) simp_all
    show ?thesis
    proof
      fix r
      assume r: "r \<in> fullReference e t ` set (references c)"
      show "r \<in> set [] \<or> r \<in> set (existingReferences w' e) \<or> docs w' r = None
          \<or> e \<in> set (bucket w' r t)"
      proof (cases "docs w r = None")
        case True
        then have "docs w' r = None" by (simp add: live)
        then show ?thesis by simp
      next
        case False
        from m [OF r False] have "e \<in> set (bucket w' r t)" by (simp add: eq)
        then show ?thesis by simp
      qed
    qed
  qed
  define w1' where "w1' = snd (addReferences e t (existingReferences w' e) (references c) ([], w'))"
  have d1: "docs w1' = docs w'"
    unfolding w1'_def by (rule addReferences_noop [OF noop])
  have "filter (\<lambda>v. v \<notin> set upd) (existingReferences w' e) = []"
    by (simp add: ex')
  then have u2: "update w' e t c f = setFlag_references w1' e upd"
    using update_run [OF run', of e t c] by (simp add: upd_def [symmetric] w1'_def [symmetric])
  have "docs (setFlag_references w1' e upd) = docs w1'"
  proof (cases "docs w e = None")
    case True
    then have "docs w1' e = None" using d1 live by simp
    then show ?thesis by (simp add: setFlag_references_dead)
  next
    case False
    then have "refsOf w1' e = Some (Some upd)"
      using refs' d1 by (simp add: refsOf_def)
    then show ?thesis by (rule setFlag_references_same)
  qed
  then show ?thesis by (simp add: u2 d1 w'_def [symmetric])
qed

lemma update_fresh_by:
  assumes "existingReferences w e = []"
  shows "byOf (update w e t c True) = byOf (snd (addReferences e t [] (references c) ([], w)))"
  using update_run [of True w e t c] by (simp add: assms)

lemma rebuildOne_cases:
  "rebuildOne e t w =
     (if getContent w e \<noteq> [] then update (wipeReferences e w) e t (getContent w e) True
      else wipeReferences e w)"
  by (simp add: rebuildOne_def Let_def getContent_staticOf)

lemma rebuildOne_by:
  "byOf (rebuildOne e t w) =
     (if getContent w e \<noteq> []
      then byOf (snd (addReferences e t [] (references (getContent w e)) ([], wipeReferences e w)))
      else byOf w)"
  by (simp add: rebuildOne_cases update_fresh_by)

lemma rebuildOne_mono:
  assumes "x \<in> set (bucket w u t')"
  shows "x \<in> set (bucket (rebuildOne e t w) u t')"
proof (cases "getContent w e \<noteq> []")
  case False
  then have "byOf (rebuildOne e t w) u = byOf w u" by (simp add: rebuildOne_by)
  then have "bucket (rebuildOne e t w) u t' = bucket w u t'" by (rule bucket_eqI)
  with assms show ?thesis by simp
next
  case True
  define w1 where "w1 = wipeReferences e w"
  have "bucket w1 u t' = bucket w u t'" by (rule bucket_eqI) (simp add: w1_def)
  with assms have "x \<in> set (bucket w1 u t')" by simp
  then have "x \<in> set (bucket (snd (addReferences e t [] (references (getContent w e)) ([], w1))) u t')"
    by (rule addReferences_mono)
  moreover have "byOf (rebuildOne e t w) u =
      byOf (snd (addReferences e t [] (references (getContent w e)) ([], w1))) u"
    using True by (simp add: rebuildOne_by w1_def)
  then have "bucket (rebuildOne e t w) u t' =
      bucket (snd (addReferences e t [] (references (getContent w e)) ([], w1))) u t'"
    by (rule bucket_eqI)
  ultimately show ?thesis by simp
qed

lemma rebuildOne_member:
  assumes link: "r \<in> fullReference e t ` set (references (getContent w e))"
    and res: "docs w r \<noteq> None"
  shows "e \<in> set (bucket (rebuildOne e t w) r t)"
proof -
  from link have ne: "getContent w e \<noteq> []" by auto
  define w1 where "w1 = wipeReferences e w"
  have r1: "docs w1 r \<noteq> None" using res by (simp add: w1_def)
  have "e \<in> set (bucket (update w1 e t (getContent w e) True) r t)"
    by (rule update_adds [OF r1 link]) (simp_all add: w1_def)
  then show ?thesis using ne by (simp add: rebuildOne_cases w1_def)
qed

lemma rebuildReferences_mono:
  "x \<in> set (bucket w u t') \<Longrightarrow> x \<in> set (bucket (rebuildReferences L w) u t')"
proof (induction L arbitrary: w)
  case Nil
  then show ?case by simp
next
  case (Cons p L)
  obtain e t where p: "p = (e, t)" by (cases p)
  from Cons.prems have "x \<in> set (bucket (rebuildOne e t w) u t')" by (rule rebuildOne_mono)
  then show ?case by (simp add: p rebuildReferences_Cons Cons.IH)
qed

lemma rebuildReferences_member:
  "(e, t) \<in> set L \<Longrightarrow> r \<in> fullReference e t ` set (references (getContent w e)) \<Longrightarrow>
     docs w r \<noteq> None \<Longrightarrow> e \<in> set (bucket (rebuildReferences L w) r t)"
proof (induction L arbitrary: w)
  case Nil
  then show ?case by simp
next
  case (Cons p L)
  obtain e' t' where p: "p = (e', t')" by (cases p)
  show ?case
  proof (cases "(e, t) = (e', t')")
    case True
    have "e \<in> set (bucket (rebuildOne e t w) r t)"
      by (rule rebuildOne_member [OF Cons.prems(2) Cons.prems(3)])
    then have "e \<in> set (bucket (rebuildReferences L (rebuildOne e t w)) r t)"
      by (rule rebuildReferences_mono)
    then show ?thesis using True by (simp add: p rebuildReferences_Cons)
  next
    case False
    with Cons.prems p have in_L: "(e, t) \<in> set L" by auto
    have c: "r \<in> fullReference e t ` set (references (getContent (rebuildOne e' t' w) e))"
      using Cons.prems(2) by (simp add: getContent_staticOf)
    have l: "docs (rebuildOne e' t' w) r \<noteq> None" using Cons.prems(3) by simp
    from Cons.IH [OF in_L c l] show ?thesis by (simp add: p rebuildReferences_Cons)
  qed
qed

lemma byOf_addLink_at:
  "byOf (addLink e t x w) x =
     (case byOf w x of
        None \<Rightarrow> None
      | Some fl \<Rightarrow>
          (let links = (case fl of None \<Rightarrow> [] | Some l \<Rightarrow> l) in
           if e \<in> set (linksOfType links t) then Some fl
           else Some (Some (AList.update t (linksOfType links t @ [e]) links))))"
proof (cases "docs w x")
  case None
  then show ?thesis by (simp add: addLink_def byOf_def)
next
  case (Some d)
  then have b: "byOf w x = Some (flag_referencedBy d)" by (simp add: byOf_def)
  show ?thesis
    using Some by (simp add: addLink_def Let_def b byOf_setFlag_referencedBy)
qed

lemma addLink_side_by_side:
  assumes cov: "\<forall>u \<in> C. byOf p u = byOf q u"
    and non: "\<forall>u. u \<notin> C \<longrightarrow> byOf q u = byOf F u"
    and H: "x \<notin> C \<longrightarrow> docs F x \<noteq> None \<longrightarrow> e \<in> set (bucket F x t)"
  shows "(\<forall>u \<in> C. byOf (addLink e t x p) u = byOf (addLink e t x q) u) \<and>
         (\<forall>u. u \<notin> C \<longrightarrow> byOf (addLink e t x q) u = byOf F u)"
proof (cases "x \<in> C")
  case True
  have "byOf (addLink e t x p) u = byOf (addLink e t x q) u" if "u \<in> C" for u
  proof (cases "u = x")
    case True
    from cov that have "byOf p u = byOf q u" by simp
    then show ?thesis unfolding True by (simp add: byOf_addLink_at)
  next
    case False
    then show ?thesis using cov that by (simp add: byOf_addLink_other)
  qed
  moreover have "byOf (addLink e t x q) u = byOf F u" if "u \<notin> C" for u
  proof -
    from that True have "u \<noteq> x" by auto
    then show ?thesis using non that by (simp add: byOf_addLink_other)
  qed
  ultimately show ?thesis by blast
next
  case False
  have qx: "byOf q x = byOf F x" using non False by simp
  have noop: "docs (addLink e t x q) = docs q"
  proof (rule addLink_noop)
    show "docs q x = None \<or> e \<in> set (bucket q x t)"
    proof (cases "docs F x = None")
      case True
      then have "byOf q x = None" using qx by (simp add: byOf_def)
      then show ?thesis by (simp add: live_by)
    next
      case live: False
      with H False have "e \<in> set (bucket F x t)" by simp
      moreover have "bucket q x t = bucket F x t" using qx by (rule bucket_eqI)
      ultimately show ?thesis by simp
    qed
  qed
  have "byOf (addLink e t x p) u = byOf (addLink e t x q) u" if "u \<in> C" for u
  proof -
    from that False have "u \<noteq> x" by auto
    then show ?thesis using cov that by (simp add: byOf_addLink_other)
  qed
  moreover have "byOf (addLink e t x q) u = byOf F u" if "u \<notin> C" for u
    using non that noop by (simp add: byOf_def)
  ultimately show ?thesis by blast
qed

lemma addReferences_side_by_side:
  assumes "\<forall>u \<in> C. byOf p u = byOf q u"
    and "\<forall>u. u \<notin> C \<longrightarrow> byOf q u = byOf F u"
    and "\<forall>r \<in> fullReference e t ` set refs.
           r \<notin> C \<longrightarrow> docs F r \<noteq> None \<longrightarrow> e \<in> set (bucket F r t)"
  shows "(\<forall>u \<in> C. byOf (snd (addReferences e t ex refs (upd, p))) u
                  = byOf (snd (addReferences e t ex refs (upd, q))) u) \<and>
         (\<forall>u. u \<notin> C \<longrightarrow> byOf (snd (addReferences e t ex refs (upd, q))) u = byOf F u)"
  using assms
proof (induction refs arbitrary: upd p q)
  case Nil
  then show ?case by simp
next
  case (Cons a refs)
  define x where "x = fullReference e t a"
  have H: "\<forall>r \<in> fullReference e t ` set refs.
           r \<notin> C \<longrightarrow> docs F r \<noteq> None \<longrightarrow> e \<in> set (bucket F r t)"
    using Cons.prems(3) by simp
  have Hx: "x \<notin> C \<longrightarrow> docs F x \<noteq> None \<longrightarrow> e \<in> set (bucket F x t)"
    using Cons.prems(3) by (simp add: x_def)
  from addLink_side_by_side [OF Cons.prems(1) Cons.prems(2) Hx]
  have s: "\<forall>u \<in> C. byOf (addLink e t x p) u = byOf (addLink e t x q) u"
    "\<forall>u. u \<notin> C \<longrightarrow> byOf (addLink e t x q) u = byOf F u"
    by simp_all
  show ?case
    using Cons.IH [OF Cons.prems(1) Cons.prems(2) H, of upd]
      Cons.IH [OF Cons.prems(1) Cons.prems(2) H, of "upd @ [x]"]
      Cons.IH [OF s H, of "upd @ [x]"]
    by (simp add: addReferences_Cons x_def [symmetric] Let_def)
qed

lemma rebuildOne_side_by_side:
  assumes cov: "\<forall>u \<in> C. byOf p u = byOf q u"
    and non: "\<forall>u. u \<notin> C \<longrightarrow> byOf q u = byOf F u"
    and st: "staticOf p = staticOf F" "staticOf q = staticOf F"
    and H: "\<forall>r \<in> fullReference e t ` set (references (getContent F e)).
           r \<notin> C \<longrightarrow> docs F r \<noteq> None \<longrightarrow> e \<in> set (bucket F r t)"
  shows "(\<forall>u \<in> C. byOf (rebuildOne e t p) u = byOf (rebuildOne e t q) u) \<and>
         (\<forall>u. u \<notin> C \<longrightarrow> byOf (rebuildOne e t q) u = byOf F u) \<and>
         refsOf (rebuildOne e t p) e = refsOf (rebuildOne e t q) e"
proof -
  have c: "getContent p e = getContent F e" "getContent q e = getContent F e"
    by (simp_all add: getContent_staticOf st)
  have live: "(docs p e = None) = (docs q e = None)"
    by (simp add: live_static st)
  have lr: "(refsOf p e = None) = (refsOf q e = None)"
    using live by (simp add: refsOf_def)
  show ?thesis
  proof (cases "getContent F e = []")
    case True
    have "map_option (\<lambda>_. None :: string list option) (refsOf p e)
        = map_option (\<lambda>_. None) (refsOf q e)"
      using lr by (cases "refsOf p e"; cases "refsOf q e") simp_all
    then show ?thesis
      using True cov non by (simp add: rebuildOne_cases c rebuildOne_by refsOf_wipeReferences)
  next
    case False
    define p1 where "p1 = wipeReferences e p"
    define q1 where "q1 = wipeReferences e q"
    have cov1: "\<forall>u \<in> C. byOf p1 u = byOf q1 u" using cov by (simp add: p1_def q1_def)
    have non1: "\<forall>u. u \<notin> C \<longrightarrow> byOf q1 u = byOf F u" using non by (simp add: q1_def)
    from addReferences_side_by_side [OF cov1 non1 H, of "[]" "[]"]
    have "(\<forall>u \<in> C. byOf (rebuildOne e t p) u = byOf (rebuildOne e t q) u) \<and>
         (\<forall>u. u \<notin> C \<longrightarrow> byOf (rebuildOne e t q) u = byOf F u)"
      using False by (simp add: rebuildOne_by c p1_def q1_def)
    moreover have "refsOf (rebuildOne e t p) e = refsOf (rebuildOne e t q) e"
      using False live by (simp add: rebuildOne_cases c update_refs_at)
    ultimately show ?thesis by simp
  qed
qed

lemma rebuildReferences_side_by_side:
  assumes "\<forall>u \<in> C. byOf p u = byOf q u"
    and "\<forall>u. u \<notin> C \<longrightarrow> byOf q u = byOf F u"
    and "staticOf p = staticOf F" "staticOf q = staticOf F"
    and "\<forall>(e, t) \<in> set L. \<forall>r \<in> fullReference e t ` set (references (getContent F e)).
           r \<notin> C \<longrightarrow> docs F r \<noteq> None \<longrightarrow> e \<in> set (bucket F r t)"
  shows "(\<forall>u \<in> C. byOf (rebuildReferences L p) u = byOf (rebuildReferences L q) u) \<and>
         (\<forall>u. u \<notin> C \<longrightarrow> byOf (rebuildReferences L q) u = byOf F u) \<and>
         (\<forall>u \<in> fst ` set L. refsOf (rebuildReferences L p) u = refsOf (rebuildReferences L q) u)"
  using assms
proof (induction L arbitrary: p q)
  case Nil
  then show ?case by simp
next
  case (Cons a L)
  obtain e t where a: "a = (e, t)" by (cases a)
  have He: "\<forall>r \<in> fullReference e t ` set (references (getContent F e)).
           r \<notin> C \<longrightarrow> docs F r \<noteq> None \<longrightarrow> e \<in> set (bucket F r t)"
    using Cons.prems(5) by (simp add: a)
  have HL: "\<forall>(e, t) \<in> set L. \<forall>r \<in> fullReference e t ` set (references (getContent F e)).
           r \<notin> C \<longrightarrow> docs F r \<noteq> None \<longrightarrow> e \<in> set (bucket F r t)"
    using Cons.prems(5) by simp
  define p1 where "p1 = rebuildOne e t p"
  define q1 where "q1 = rebuildOne e t q"
  from rebuildOne_side_by_side [OF Cons.prems(1) Cons.prems(2) Cons.prems(3) Cons.prems(4) He]
  have s: "\<forall>u \<in> C. byOf p1 u = byOf q1 u" "\<forall>u. u \<notin> C \<longrightarrow> byOf q1 u = byOf F u"
    and re: "refsOf p1 e = refsOf q1 e"
    by (simp_all add: p1_def q1_def)
  have st1: "staticOf p1 = staticOf F" "staticOf q1 = staticOf F"
    using Cons.prems(3) Cons.prems(4) by (simp_all add: p1_def q1_def)
  from Cons.IH [OF s st1 HL]
  have ih: "\<forall>u \<in> C. byOf (rebuildReferences L p1) u = byOf (rebuildReferences L q1) u"
    "\<forall>u. u \<notin> C \<longrightarrow> byOf (rebuildReferences L q1) u = byOf F u"
    "\<forall>u \<in> fst ` set L. refsOf (rebuildReferences L p1) u = refsOf (rebuildReferences L q1) u"
    by simp_all
  have "refsOf (rebuildReferences L p1) e = refsOf (rebuildReferences L q1) e"
  proof (cases "e \<in> fst ` set L")
    case True
    then show ?thesis using ih(3) by blast
  next
    case False
    then show ?thesis using re by (simp add: rebuildReferences_refs_other)
  qed
  then have "\<forall>u \<in> fst ` set (a # L).
      refsOf (rebuildReferences L p1) u = refsOf (rebuildReferences L q1) u"
    using ih(3) by (simp add: a)
  then show ?case
    using ih(1) ih(2) by (simp add: a rebuildReferences_Cons p1_def q1_def)
qed

lemma sync_idempotent: "docs (sync (sync w)) = docs (sync w)"
proof -
  define L where "L = getAllDocuments w"
  define C where "C = fst ` set L"
  define F where "F = sync w"
  define p where "p = wipeReferencedBy L w"
  define q where "q = wipeReferencedBy L F"
  have F: "F = rebuildReferences L p" by (simp add: F_def sync_def Let_def L_def p_def)
  have "getAllDocuments F = L"
    unfolding L_def F_def by (rule settingsOf_eqD) (simp add: sync_frame)
  then have F2: "sync F = rebuildReferences L q" by (simp add: sync_def Let_def q_def)
  have stF: "staticOf F = staticOf w" by (simp add: F_def sync_frame)
  have stp: "staticOf p = staticOf F" by (simp add: p_def wipeReferencedBy_frame stF)
  have stq: "staticOf q = staticOf F" by (simp add: q_def wipeReferencedBy_frame)
  have liveF: "(byOf F u = None) = (byOf w u = None)" for u
    using stF by (simp add: live_by [symmetric] live_static)
  have cov: "\<forall>u \<in> C. byOf p u = byOf q u"
  proof
    fix u assume "u \<in> C"
    then have "byOf p u = map_option (\<lambda>_. None) (byOf w u)"
      "byOf q u = map_option (\<lambda>_. None) (byOf F u)"
      by (simp_all add: p_def q_def wipeReferencedBy_by C_def)
    then show "byOf p u = byOf q u"
      using liveF [of u] by (cases "byOf w u"; cases "byOf F u") simp_all
  qed
  have non: "\<forall>u. u \<notin> C \<longrightarrow> byOf q u = byOf F u"
    by (simp add: q_def wipeReferencedBy_by C_def)
  have Hm: "e \<in> set (bucket F r t)"
    if et: "(e, t) \<in> set L"
      and r: "r \<in> fullReference e t ` set (references (getContent F e))"
      and l: "docs F r \<noteq> None"
    for e t r
  proof -
    have "getContent F e = getContent p e" by (simp add: getContent_staticOf stp)
    with r have r': "r \<in> fullReference e t ` set (references (getContent p e))" by simp
    have l': "docs p r \<noteq> None" using l by (simp add: live_static stp)
    show ?thesis
      unfolding F by (rule rebuildReferences_member [OF et r' l'])
  qed
  have H: "\<forall>(e, t) \<in> set L. \<forall>r \<in> fullReference e t ` set (references (getContent F e)).
           r \<notin> C \<longrightarrow> docs F r \<noteq> None \<longrightarrow> e \<in> set (bucket F r t)"
    using Hm by fast
  from rebuildReferences_side_by_side [OF cov non stp stq H]
  have r1: "\<forall>u \<in> C. byOf F u = byOf (sync F) u"
    and r2: "\<forall>u. u \<notin> C \<longrightarrow> byOf (sync F) u = byOf F u"
    and r3: "\<forall>u \<in> C. refsOf F u = refsOf (sync F) u"
    by (simp_all add: F [symmetric] F2 [symmetric] C_def)
  have by_eq: "byOf (sync F) = byOf F"
  proof
    fix u show "byOf (sync F) u = byOf F u"
      using r1 r2 by (cases "u \<in> C") simp_all
  qed
  have refs_eq: "refsOf (sync F) = refsOf F"
  proof
    fix u show "refsOf (sync F) u = refsOf F u"
    proof (cases "u \<in> C")
      case True
      then show ?thesis using r3 by simp
    next
      case False
      then have "refsOf (sync F) u = refsOf q u"
        unfolding F2 C_def by (intro rebuildReferences_refs_other)
      then show ?thesis by (simp add: q_def wipeReferencedBy_frame)
    qed
  qed
  have "staticOf (sync F) = staticOf F" by (simp add: sync_frame)
  from docs_eqI [OF this by_eq refs_eq] show ?thesis by (simp add: F_def)
qed

text \<open>
  C2. The maintenance is idempotent on the flag state: a second run of \<open>update\<close> on the
  same document with the same content leaves the store as the first run left it, and a
  second full rebuild leaves the store as the first rebuild left it, on every document.
\<close>

theorem backlink_maintenance_idempotent:
  "docs (update (update w entity entityType content force) entity entityType content force)
     = docs (update w entity entityType content force) \<and>
   docs (sync (sync w)) = docs (sync w)"
  using update_idempotent [of w entity entityType content force] sync_idempotent [of w]
  by simp

end
